theory Spec2Isabelle
  imports Main "HOL-Library.AList" "HOL-Library.Sublist"
begin

section \<open>Conversion of a pnpm lockfile into an npm package lock\<close>

text \<open>
  A shallow embedding of \<^verbatim>\<open>src/lib/compass/processPnpmLockfile.ts\<close>.

  Conventions of the embedding.
  \<^item> A JavaScript object used as a dictionary is an association list; the order of the
    list is the order of \<^verbatim>\<open>Object.entries\<close>. \<^verbatim>\<open>obj[k] = v\<close> is \<open>AList.update\<close>
    (an existing key keeps its place, a new key goes to the end), \<^verbatim>\<open>delete obj[k]\<close> is
    \<open>AList.delete\<close>, \<^verbatim>\<open>obj[k]\<close> is \<open>map_of\<close>. JavaScript lists integer-like keys
    first; package names and package keys are not of that form, and the embedding does not
    reorder them. Members inherited from \<^verbatim>\<open>Object.prototype\<close> are not modelled.
  \<^item> An optional field is an \<open>option\<close>; \<^verbatim>\<open>undefined\<close> is \<open>None\<close>.
  \<^item> A \<^verbatim>\<open>throw\<close> is the left injection of a sum; a run-time \<^verbatim>\<open>TypeError\<close> of the
    engine (reading a property of \<^verbatim>\<open>undefined\<close>) is a value of the same type.
  \<^item> A string is a list of characters of the type \<open>char\<close>, which stand for the code
    units of the JavaScript string. Every character that the code singles out (the slash,
    the underscore, the at sign, the digits, LF and CR) is a character of that type. Of
    the four line terminators that the regular expression atom \<^verbatim>\<open>.\<close> refuses, U+2028
    and U+2029 are not, and are not modelled.
  \<^item> The input document is a tree: no two places of it share one object (no YAML alias),
    so mutating one dependency record in place never changes another.
\<close>

subsection \<open>Data model\<close>

datatype thrown =
    Error string
  | TypeError string
  | Rejected "string option" string

type_synonym ResolvedDependencies = "(string \<times> string) list"

record LockfileResolution =
  res_integrity :: "string option"

record PackageSnapshot =
  snap_name :: "string option"
  resolution :: LockfileResolution
  snap_dependencies :: "ResolvedDependencies option"
  snap_dev :: "bool option"

type_synonym PackageSnapshots = "(string \<times> PackageSnapshot) list"

record PnpmPackageLock =
  dependencies :: "ResolvedDependencies option"
  devDependencies :: "ResolvedDependencies option"
  optionalDependencies :: "ResolvedDependencies option"
  lockfileVersion :: int
  packages :: PackageSnapshots
  specifiers :: ResolvedDependencies

record NpmLockedPackageSubDependency =
  sub_version :: "string option"
  sub_resolved :: "string option"
  sub_integrity :: "string option"

type_synonym NpmLockedPackageRequiresMap = "(string \<times> string) list"

type_synonym NpmLockedPackageSubDependencyMap =
  "(string \<times> NpmLockedPackageSubDependency) list"

record NpmLockedPackageDependency =
  dep_version :: "string option"
  dep_resolved :: "string option"
  dep_from :: "string option"
  dep_integrity :: "string option"
  dep_dev :: "bool option"
  dep_requires :: "NpmLockedPackageRequiresMap option"
  dep_dependencies :: "NpmLockedPackageSubDependencyMap option"

type_synonym NpmLockedPackageDependencyMap =
  "(string \<times> NpmLockedPackageDependency) list"

record NpmPackageLock =
  out_requires :: "bool option"
  out_lockfileVersion :: int
  out_dependencies :: NpmLockedPackageDependencyMap

datatype PnpmPackageDescType = Version | Github | Uri

record PnpmPackageDesc =
  desc_type :: PnpmPackageDescType
  fullName :: string
  desc_name :: string
  desc_version :: string
  extra :: "string option"

text \<open>
  \<^verbatim>\<open>DEPENDENCIES_FIELDS\<close> is imported from \<^verbatim>\<open>@pnpm/types\<close> and is not part of the
  repository: the functions below take the list of fields as a parameter.
\<close>

datatype DependenciesField = Dependencies | DevDependencies | OptionalDependencies

fun field :: "PnpmPackageLock \<Rightarrow> DependenciesField \<Rightarrow> ResolvedDependencies option" where
  "field lockfile Dependencies = dependencies lockfile"
| "field lockfile DevDependencies = devDependencies lockfile"
| "field lockfile OptionalDependencies = optionalDependencies lockfile"

text \<open>
  Modelled from the spec: the order of \<^verbatim>\<open>DEPENDENCIES_FIELDS\<close>, which the spec gives as
  runtime, then development, then optional.
\<close>

definition DEPENDENCIES_FIELDS :: "DependenciesField list" where
  "DEPENDENCIES_FIELDS = [Dependencies, DevDependencies, OptionalDependencies]"

subsection \<open>String primitives\<close>

definition startsWith :: "string \<Rightarrow> string \<Rightarrow> bool" where
  "startsWith s p \<longleftrightarrow> take (length p) s = p"

definition indexOf :: "string \<Rightarrow> char \<Rightarrow> int" where
  "indexOf s c =
     (if c \<in> set s then int (length (takeWhile (\<lambda>x. x \<noteq> c) s)) else - 1)"

text \<open>\<^verbatim>\<open>substr\<close> is only called with a start that is not negative.\<close>

definition substr :: "string \<Rightarrow> int \<Rightarrow> int \<Rightarrow> string" where
  "substr s start len = take (nat len) (drop (nat start) s)"

definition substrFrom :: "string \<Rightarrow> int \<Rightarrow> string" where
  "substrFrom s start = drop (nat start) s"

definition isLineTerminator :: "char \<Rightarrow> bool" where
  "isLineTerminator c \<longleftrightarrow> c = CHR 0x0A \<or> c = CHR 0x0D"

definition isDigit :: "char \<Rightarrow> bool" where
  "isDigit c \<longleftrightarrow> c \<in> set ''0123456789''"

definition isHexDigit :: "char \<Rightarrow> bool" where
  "isHexDigit c \<longleftrightarrow> c \<in> set ''0123456789abcdef''"

subsection \<open>The two regular expressions\<close>

text \<open>
  \<^verbatim>\<open>[^/]+\/\<close> at the head of a string: the longest run of characters other than a
  slash, which must be non-empty and followed by a slash. The run cannot be shortened by
  backtracking, because the character after a shorter run is not a slash.
\<close>

definition segment :: "string \<Rightarrow> (string \<times> string) option" where
  "segment s =
     (let seg = takeWhile (\<lambda>c. c \<noteq> CHR ''/'') s;
          rest = dropWhile (\<lambda>c. c \<noteq> CHR ''/'') s
      in if seg = [] \<or> rest = [] then None else Some (seg, tl rest))"

text \<open>
  \<^verbatim>\<open>/^github.com\/([^/]+\/([^/]+))\/([0-9a-f]{40})$/.exec(uri)\<close>: the groups 1, 2
  and 3 of the match. The dot of the pattern is not escaped and stands for any character
  that is not a line terminator.
\<close>

definition execGithub :: "string \<Rightarrow> (string \<times> string \<times> string) option" where
  "execGithub uri =
     (if take 6 uri = ''github''
         \<and> (case drop 6 uri of [] \<Rightarrow> False | c # _ \<Rightarrow> \<not> isLineTerminator c)
         \<and> take 4 (drop 7 uri) = ''com/''
      then (case segment (drop 11 uri) of
              None \<Rightarrow> None
            | Some (owner, r1) \<Rightarrow>
                (case segment r1 of
                   None \<Rightarrow> None
                 | Some (repo, commit) \<Rightarrow>
                     if length commit = 40 \<and> list_all isHexDigit commit
                     then Some (owner @ ''/'' @ repo, repo, commit)
                     else None))
      else None)"

text \<open>
  \<^verbatim>\<open>/^[^/]*\/((?:@[^/]+\/)?[^/]+)\/(.*)$/.exec(fullName)\<close>: the groups 1 and 2 of
  the match. The optional scope \<^verbatim>\<open>@[^/]+\/\<close> is tried first; when the rest of the
  pattern fails after it, the match is tried again without it. \<^verbatim>\<open>(.*)$\<close> takes the
  whole remainder, which must hold no line terminator.
\<close>

definition execPath :: "string \<Rightarrow> (string \<times> string) option" where
  "execPath key =
     (case dropWhile (\<lambda>c. c \<noteq> CHR ''/'') key of
        [] \<Rightarrow> None
      | _ # r \<Rightarrow>
          (case segment r of
             None \<Rightarrow> None
           | Some (seg1, rest1) \<Rightarrow>
               (let unscoped =
                      (if list_ex isLineTerminator rest1 then None else Some (seg1, rest1))
                in if take 1 seg1 = ''@'' \<and> 2 \<le> length seg1
                   then (case segment rest1 of
                           None \<Rightarrow> unscoped
                         | Some (seg2, rest2) \<Rightarrow>
                             if list_ex isLineTerminator rest2 then unscoped
                             else Some (seg1 @ ''/'' @ seg2, rest2))
                   else unscoped)))"

subsection \<open>Identifier parser\<close>

definition getGithubPackageDesc :: "string \<Rightarrow> thrown + PnpmPackageDesc" where
  "getGithubPackageDesc uri =
     (case execGithub uri of
        None \<Rightarrow> Inl (Error (''Error parsing github URI '' @ uri))
      | Some (r1, r2, r3) \<Rightarrow>
          (let versionUri = ''github:'' @ r1 @ ''#'' @ r3;
               name = r2
           in Inr \<lparr>desc_type = Github, fullName = uri, desc_name = name,
                   desc_version = versionUri, extra = None\<rparr>))"

definition getPathPackageDesc :: "string \<Rightarrow> thrown + PnpmPackageDesc" where
  "getPathPackageDesc fullName' =
     (if \<not> startsWith fullName' ''github.com/''
      then (case execPath fullName' of
              None \<Rightarrow> Inl (Error (''Error parsing package name '' @ fullName'))
            | Some (name, version) \<Rightarrow>
                (let type = (if startsWith fullName' ''/'' then Version else Uri);
                     firstUnderscore = indexOf version (CHR ''_'');
                     (versionNumber, extra') =
                       (if firstUnderscore \<noteq> - 1
                        then (substr version 0 firstUnderscore,
                              Some (substrFrom version (firstUnderscore + 1)))
                        else (version, None))
                 in Inr \<lparr>desc_type = type, fullName = fullName', desc_name = name,
                         desc_version = versionNumber, extra = extra'\<rparr>))
      else getGithubPackageDesc fullName')"

text \<open>A package in the \<^verbatim>\<open>dependencies\<close> section of the lockfile.\<close>

definition getDependencyPackageDesc :: "string \<Rightarrow> string \<Rightarrow> thrown + PnpmPackageDesc" where
  "getDependencyPackageDesc name version =
     (if (case version of [] \<Rightarrow> False | c # _ \<Rightarrow> isDigit c)
      then getPathPackageDesc ('''' @ ''/'' @ name @ ''/'' @ version)
      else getPathPackageDesc version)"

subsection \<open>Package resolver\<close>

definition getPackage ::
  "PnpmPackageLock \<Rightarrow> PnpmPackageDesc \<Rightarrow> bool
     \<Rightarrow> thrown + (NpmLockedPackageDependency \<times> PnpmPackageLock)" where
  "getPackage lockfile packageDesc remove =
     (case map_of (packages lockfile) (fullName packageDesc) of
        None \<Rightarrow>
          Inl (Error (''Failed to lookup '' @ fullName packageDesc @ '' in packages''))
      | Some snapshot \<Rightarrow>
          (let dep0 = \<lparr>dep_version = Some (desc_version packageDesc), dep_resolved = None,
                       dep_from = None, dep_integrity = None, dep_dev = None,
                       dep_requires = None, dep_dependencies = None\<rparr>;
               dep1 = (if desc_type packageDesc = Github
                       then (case snap_name snapshot of
                               None \<Rightarrow> dep0
                             | Some n \<Rightarrow>
                                 (case map_of (specifiers lockfile) n of
                                    None \<Rightarrow> dep0
                                  | Some spec \<Rightarrow> dep0\<lparr>dep_from := Some spec\<rparr>))
                       else dep0);
               dep2 = (case res_integrity (resolution snapshot) of
                         None \<Rightarrow> dep1
                       | Some i \<Rightarrow> dep1\<lparr>dep_integrity := Some i\<rparr>);
               dep3 = (case snap_dependencies snapshot of
                         None \<Rightarrow> dep2
                       | Some ds \<Rightarrow> dep2\<lparr>dep_requires := Some ds\<rparr>);
               dep4 = (if snap_dev snapshot = Some True
                       then dep3\<lparr>dep_dev := snap_dev snapshot\<rparr>
                       else dep3);
               lockfile' = (if remove
                            then lockfile\<lparr>packages :=
                                   AList.delete (fullName packageDesc) (packages lockfile)\<rparr>
                            else lockfile)
           in Inr (dep4, lockfile')))"

definition getSubDependencyFromDependency ::
  "NpmLockedPackageDependency \<Rightarrow> NpmLockedPackageSubDependency" where
  "getSubDependencyFromDependency dep =
     (let subDep0 = \<lparr>sub_version = dep_version dep, sub_resolved = None,
                      sub_integrity = None\<rparr>;
          subDep1 = (case dep_resolved dep of
                       None \<Rightarrow> subDep0
                     | Some r \<Rightarrow> subDep0\<lparr>sub_resolved := Some r\<rparr>);
          subDep2 = (case dep_integrity dep of
                       None \<Rightarrow> subDep1
                     | Some i \<Rightarrow> subDep1\<lparr>sub_integrity := Some i\<rparr>)
      in subDep2)"

subsection \<open>Graph reshaper\<close>

text \<open>
  First loop of \<^verbatim>\<open>processLockfile\<close>: establish precedence of direct dependencies.
  \<open>directDependenciesOf\<close> is the inner loop over the entries of one field,
  \<open>directDependencies\<close> the outer loop over the fields. The state is the root map
  \<^verbatim>\<open>deps\<close> and the lockfile, whose packages \<^verbatim>\<open>getPackage\<close> removes.
\<close>

fun directDependenciesOf ::
  "ResolvedDependencies \<Rightarrow> NpmLockedPackageDependencyMap \<times> PnpmPackageLock
     \<Rightarrow> thrown + (NpmLockedPackageDependencyMap \<times> PnpmPackageLock)" where
  "directDependenciesOf [] (deps, lockfile) = Inr (deps, lockfile)"
| "directDependenciesOf ((name, version) # rest) (deps, lockfile) =
     (case getDependencyPackageDesc name version of
        Inl e \<Rightarrow> Inl e
      | Inr packageDesc \<Rightarrow>
          (case getPackage lockfile packageDesc True of
             Inl e \<Rightarrow> Inl e
           | Inr (pkg, lockfile') \<Rightarrow>
               directDependenciesOf rest
                 (AList.update (desc_name packageDesc) pkg deps, lockfile')))"

fun directDependencies ::
  "DependenciesField list \<Rightarrow> NpmLockedPackageDependencyMap \<times> PnpmPackageLock
     \<Rightarrow> thrown + (NpmLockedPackageDependencyMap \<times> PnpmPackageLock)" where
  "directDependencies [] (deps, lockfile) = Inr (deps, lockfile)"
| "directDependencies (depType # rest) (deps, lockfile) =
     (case field lockfile depType of
        None \<Rightarrow> directDependencies rest (deps, lockfile)
      | Some depsMap \<Rightarrow>
          (case directDependenciesOf depsMap (deps, lockfile) of
             Inl e \<Rightarrow> Inl e
           | Inr st \<Rightarrow> directDependencies rest st))"

text \<open>
  Second loop: process remaining packages, over the keys that
  \<^verbatim>\<open>Object.entries(lockfile.packages)\<close> lists when the loop starts. The state is the
  root map \<^verbatim>\<open>deps\<close> and the staging map \<^verbatim>\<open>subdeps\<close>.
\<close>

fun remainingPackages ::
  "string list \<Rightarrow> PnpmPackageLock
     \<Rightarrow> NpmLockedPackageDependencyMap \<times> NpmLockedPackageDependencyMap
     \<Rightarrow> thrown + (NpmLockedPackageDependencyMap \<times> NpmLockedPackageDependencyMap)" where
  "remainingPackages [] lockfile (deps, subdeps) = Inr (deps, subdeps)"
| "remainingPackages (key # rest) lockfile (deps, subdeps) =
     (case getPathPackageDesc key of
        Inl e \<Rightarrow> Inl e
      | Inr packageDesc \<Rightarrow>
          (case getPackage lockfile packageDesc False of
             Inl e \<Rightarrow> Inl e
           | Inr (pkg, lockfile') \<Rightarrow>
               if map_of deps (desc_name packageDesc) \<noteq> None
               then remainingPackages rest lockfile'
                      (deps, AList.update (fullName packageDesc) pkg subdeps)
               else remainingPackages rest lockfile'
                      (AList.update (desc_name packageDesc) pkg deps, subdeps)))"

text \<open>
  Third loop, body of the inner loop, first statement: a required package that is staged
  is declared in the \<^verbatim>\<open>dependencies\<close> of the root \<^verbatim>\<open>val\<close>; otherwise the root map
  must hold the required name at the required version. Reading \<^verbatim>\<open>dep.version\<close> when
  \<^verbatim>\<open>deps[name]\<close> is \<^verbatim>\<open>undefined\<close> is a \<^verbatim>\<open>TypeError\<close>.
\<close>

definition declareOrCheck ::
  "NpmLockedPackageDependencyMap \<Rightarrow> NpmLockedPackageDependencyMap \<Rightarrow> string \<Rightarrow> string
     \<Rightarrow> PnpmPackageDesc \<Rightarrow> NpmLockedPackageDependency
     \<Rightarrow> thrown + NpmLockedPackageDependency" where
  "declareOrCheck deps subdeps key name packageDesc val =
     (case map_of subdeps (fullName packageDesc) of
        Some dep \<Rightarrow>
          (let ds = (case dep_dependencies val of None \<Rightarrow> [] | Some ds \<Rightarrow> ds)
           in Inr (val\<lparr>dep_dependencies :=
                     Some (AList.update name (getSubDependencyFromDependency dep) ds)\<rparr>))
      | None \<Rightarrow>
          (case map_of deps name of
             None \<Rightarrow>
               Inl (TypeError ''Cannot read properties of undefined (reading 'version')'')
           | Some dep \<Rightarrow>
               if dep_version dep \<noteq> Some (desc_version packageDesc)
               then Inl (Error (''Failed to lookup '' @ fullName packageDesc
                                  @ '' in dependencies; used by '' @ key))
               else Inr val))"

text \<open>
  Second statement of the body: remove any extraneous info from the name in
  \<^verbatim>\<open>requires\<close>. The statement runs inside \<^verbatim>\<open>if (val.requires !== undefined)\<close>.
\<close>

definition removeExtraneous ::
  "string \<Rightarrow> PnpmPackageDesc \<Rightarrow> NpmLockedPackageDependency \<Rightarrow> NpmLockedPackageDependency" where
  "removeExtraneous name packageDesc val =
     (if extra packageDesc \<noteq> None \<or> desc_type packageDesc = Uri
      then val\<lparr>dep_requires :=
             Some (AList.update name (desc_version packageDesc)
                     (case dep_requires val of None \<Rightarrow> [] | Some rs \<Rightarrow> rs))\<rparr>
      else val)"

text \<open>
  The inner loop runs over the entries that \<^verbatim>\<open>Object.entries(val.requires)\<close> lists
  when it starts; the outer loop over the entries of \<^verbatim>\<open>deps\<close> listed when it starts.
  A root is changed only during its own iteration, and only in its \<^verbatim>\<open>requires\<close> and
  \<^verbatim>\<open>dependencies\<close>, so the listed \<^verbatim>\<open>val\<close> is still the record of the root when its
  iteration begins; the iteration ends by storing the record back.
\<close>

fun requiresOf ::
  "NpmLockedPackageDependencyMap \<Rightarrow> NpmLockedPackageDependencyMap \<Rightarrow> string
     \<Rightarrow> NpmLockedPackageRequiresMap \<Rightarrow> NpmLockedPackageDependency
     \<Rightarrow> thrown + NpmLockedPackageDependency" where
  "requiresOf deps subdeps key [] val = Inr val"
| "requiresOf deps subdeps key ((name, version) # rest) val =
     (case getDependencyPackageDesc name version of
        Inl e \<Rightarrow> Inl e
      | Inr packageDesc \<Rightarrow>
          (case declareOrCheck deps subdeps key name packageDesc val of
             Inl e \<Rightarrow> Inl e
           | Inr val' \<Rightarrow>
               requiresOf deps subdeps key rest (removeExtraneous name packageDesc val')))"

fun requiredSubdependencies ::
  "NpmLockedPackageDependencyMap \<Rightarrow> NpmLockedPackageDependencyMap
     \<Rightarrow> NpmLockedPackageDependencyMap \<Rightarrow> thrown + NpmLockedPackageDependencyMap" where
  "requiredSubdependencies [] subdeps deps = Inr deps"
| "requiredSubdependencies ((key, val) # rest) subdeps deps =
     (case dep_requires val of
        None \<Rightarrow> requiredSubdependencies rest subdeps deps
      | Some rs \<Rightarrow>
          (case requiresOf deps subdeps key rs val of
             Inl e \<Rightarrow> Inl e
           | Inr val' \<Rightarrow> requiredSubdependencies rest subdeps (AList.update key val' deps)))"

definition processLockfile ::
  "DependenciesField list \<Rightarrow> PnpmPackageLock \<Rightarrow> thrown + NpmPackageLock" where
  "processLockfile depFields lockfile =
     (case directDependencies depFields ([], lockfile) of
        Inl e \<Rightarrow> Inl e
      | Inr (deps1, lockfile1) \<Rightarrow>
          (case remainingPackages (map fst (packages lockfile1)) lockfile1 (deps1, []) of
             Inl e \<Rightarrow> Inl e
           | Inr (deps2, subdeps) \<Rightarrow>
               (case requiredSubdependencies deps2 subdeps deps2 of
                  Inl e \<Rightarrow> Inl e
                | Inr deps3 \<Rightarrow>
                    Inr \<lparr>out_requires = Some True, out_lockfileVersion = 1,
                         out_dependencies = deps3\<rparr>)))"

subsection \<open>Entry point\<close>

text \<open>
  \<^verbatim>\<open>readYamlFile\<close> is the file system: a function from a path to the parsed document
  or to the value the read rejects with. \<open>code\<close> is the \<^verbatim>\<open>code\<close> property of a
  thrown value.
\<close>

fun code :: "thrown \<Rightarrow> string option" where
  "code (Rejected c m) = c"
| "code (Error m) = None"
| "code (TypeError m) = None"

definition readPnpmLockfile ::
  "(string \<Rightarrow> thrown + PnpmPackageLock) \<Rightarrow> string \<Rightarrow> thrown + PnpmPackageLock option" where
  "readPnpmLockfile readYamlFile lockfilePath =
     (case readYamlFile lockfilePath of
        Inr lockfile \<Rightarrow> Inr (Some lockfile)
      | Inl err \<Rightarrow> if code err \<noteq> Some ''ENOENT'' then Inl err else Inr None)"

definition processPnpmLockfile ::
  "DependenciesField list \<Rightarrow> (string \<Rightarrow> thrown + PnpmPackageLock) \<Rightarrow> string
     \<Rightarrow> thrown + NpmPackageLock" where
  "processPnpmLockfile depFields readYamlFile lockfilePath =
     (case readPnpmLockfile readYamlFile lockfilePath of
        Inl e \<Rightarrow> Inl e
      | Inr None \<Rightarrow> Inl (Error (''Failed to load pnpm lock file '' @ lockfilePath))
      | Inr (Some lockfile) \<Rightarrow> processLockfile depFields lockfile)"

subsection \<open>Notions used to state the properties\<close>

text \<open>
  The version-control form in the words of the spec: the host prefix, an owner, a
  repository name and a commit hash of 40 hexadecimal characters (lower case, as commit
  hashes are written), separated by slashes.
\<close>

definition versionControlKey :: "string \<Rightarrow> string \<Rightarrow> string \<Rightarrow> string \<Rightarrow> bool" where
  "versionControlKey key owner repo commit \<longleftrightarrow>
     key = ''github.com/'' @ owner @ ''/'' @ repo @ ''/'' @ commit
     \<and> owner \<noteq> [] \<and> CHR ''/'' \<notin> set owner \<and> repo \<noteq> [] \<and> CHR ''/'' \<notin> set repo
     \<and> length commit = 40 \<and> list_all isHexDigit commit"

text \<open>
  What the third loop writes into \<^verbatim>\<open>requires[name]\<close> for an entry \<open>(name, version)\<close>:
  the version of the parsed descriptor when the descriptor has an extra or is of kind
  Uri, the specifier itself otherwise.
\<close>

definition rewritten :: "string \<times> string \<Rightarrow> string \<times> string" where
  "rewritten entry =
     (case getDependencyPackageDesc (fst entry) (snd entry) of
        Inl e \<Rightarrow> entry
      | Inr packageDesc \<Rightarrow>
          if extra packageDesc \<noteq> None \<or> desc_type packageDesc = Uri
          then (fst entry, desc_version packageDesc)
          else entry)"

text \<open>The nested dependencies of a record, empty when the field is absent.\<close>

definition nested :: "NpmLockedPackageDependency \<Rightarrow> NpmLockedPackageSubDependencyMap" where
  "nested val = (case dep_dependencies val of None \<Rightarrow> [] | Some ds \<Rightarrow> ds)"

text \<open>Two records that agree on every field the third loop does not write.\<close>

definition sameCore :: "NpmLockedPackageDependency \<Rightarrow> NpmLockedPackageDependency \<Rightarrow> bool" where
  "sameCore a b \<longleftrightarrow>
     dep_version a = dep_version b \<and> dep_resolved a = dep_resolved b
     \<and> dep_from a = dep_from b \<and> dep_integrity a = dep_integrity b \<and> dep_dev a = dep_dev b"

text \<open>A record as the resolver builds it: no \<open>resolved\<close>, no nested dependencies.\<close>

definition unnested :: "NpmLockedPackageDependency \<Rightarrow> bool" where
  "unnested val \<longleftrightarrow> dep_resolved val = None \<and> dep_dependencies val = None"

text \<open>The entries of the fields in the order in which the first loop visits them.\<close>

definition fieldEntries :: "PnpmPackageLock \<Rightarrow> DependenciesField list \<Rightarrow> ResolvedDependencies" where
  "fieldEntries lockfile depFields =
     concat (map (\<lambda>depType. case field lockfile depType of None \<Rightarrow> [] | Some m \<Rightarrow> m)
               depFields)"




subsection \<open>Sample documents\<close>

text \<open>
  A snapshot with an optional integrity and optional dependencies, a snapshot with a
  \<^verbatim>\<open>dev\<close> mark, a dependency record with a version and optional requires, and the
  descriptor of the registry-local key of a name and a version.
\<close>

definition plainSnapshot :: "string option \<Rightarrow> ResolvedDependencies option \<Rightarrow> PackageSnapshot" where
  "plainSnapshot i ds =
     \<lparr>snap_name = None, resolution = \<lparr>res_integrity = i\<rparr>, snap_dependencies = ds,
      snap_dev = None\<rparr>"

definition devSnapshot :: "bool \<Rightarrow> PackageSnapshot" where
  "devSnapshot b =
     \<lparr>snap_name = None, resolution = \<lparr>res_integrity = None\<rparr>, snap_dependencies = None,
      snap_dev = Some b\<rparr>"

definition rootOf :: "string \<Rightarrow> NpmLockedPackageRequiresMap option \<Rightarrow> NpmLockedPackageDependency" where
  "rootOf v rs =
     \<lparr>dep_version = Some v, dep_resolved = None, dep_from = None, dep_integrity = None,
      dep_dev = None, dep_requires = rs, dep_dependencies = None\<rparr>"

definition versionDesc :: "string \<Rightarrow> string \<Rightarrow> PnpmPackageDesc" where
  "versionDesc n v =
     \<lparr>desc_type = Version, fullName = ''/'' @ n @ ''/'' @ v, desc_name = n, desc_version = v,
      extra = None\<rparr>"

text \<open>
  One package marked \<^verbatim>\<open>dev: true\<close> and one marked \<^verbatim>\<open>dev: false\<close>.
\<close>

definition devLockfile :: PnpmPackageLock where
  "devLockfile =
     \<lparr>dependencies = None, devDependencies = Some [(''jest'', ''26.0.0'')],
      optionalDependencies = None, lockfileVersion = 5,
      packages = [(''/jest/26.0.0'', devSnapshot True), (''/left-pad/1.3.0'', devSnapshot False)],
      specifiers = [(''jest'', ''^26.0.0'')]\<rparr>"

text \<open>
  A root \<^verbatim>\<open>app\<close> that requires \<^verbatim>\<open>lodash\<close> under the alias \<^verbatim>\<open>my-lodash\<close>, the way
  pnpm records an aliased dependency: the specifier is the package key.
\<close>

definition aliasLockfile :: PnpmPackageLock where
  "aliasLockfile =
     \<lparr>dependencies = Some [(''app'', ''1.0.0'')], devDependencies = None,
      optionalDependencies = None, lockfileVersion = 5,
      packages =
        [(''/app/1.0.0'', plainSnapshot None (Some [(''my-lodash'', ''/lodash/4.17.21'')])),
         (''/lodash/4.17.21'', plainSnapshot None None)],
      specifiers = [(''app'', ''^1.0.0'')]\<rparr>"

text \<open>
  The same document after the first loop, which has removed the declared package, and the
  root map after the second loop, which has made \<^verbatim>\<open>lodash\<close> a root.
\<close>

definition aliasRemaining :: PnpmPackageLock where
  "aliasRemaining =
     aliasLockfile\<lparr>packages := [(''/lodash/4.17.21'', plainSnapshot None None)]\<rparr>"

definition aliasRoots :: NpmLockedPackageDependencyMap where
  "aliasRoots =
     [(''app'', rootOf ''1.0.0'' (Some [(''my-lodash'', ''/lodash/4.17.21'')])),
      (''lodash'', rootOf ''4.17.21'' None)]"

text \<open>A file system without the lockfile, and one whose lockfile cannot be read.\<close>

definition missingFile :: "string \<Rightarrow> thrown + PnpmPackageLock" where
  "missingFile path = Inl (Rejected (Some ''ENOENT'') ''no such file or directory'')"

definition unreadableFile :: "string \<Rightarrow> thrown + PnpmPackageLock" where
  "unreadableFile path = Inl (Rejected (Some ''EACCES'') ''permission denied'')"

text \<open>
  Three roots, the first of which requires the second with a peer suffix and the third
  with a bare version; and the same roots after the third loop.
\<close>

definition sampleRoots :: NpmLockedPackageDependencyMap where
  "sampleRoots =
     [(''baz'', rootOf ''3.0.0'' (Some [(''qux'', ''4.0.0_react@16''), (''foo'', ''1.1.0'')])),
      (''qux'', rootOf ''4.0.0'' None),
      (''foo'', rootOf ''1.1.0'' None)]"

definition sampleRootsRewritten :: NpmLockedPackageDependencyMap where
  "sampleRootsRewritten =
     [(''baz'', rootOf ''3.0.0'' (Some [(''qux'', ''4.0.0''), (''foo'', ''1.1.0'')])),
      (''qux'', rootOf ''4.0.0'' None),
      (''foo'', rootOf ''1.1.0'' None)]"

text \<open>
  A root \<^verbatim>\<open>foo\<close> that requires \<^verbatim>\<open>bar\<close> at 1.0.0 beside a root \<^verbatim>\<open>bar\<close> at 2.0.0.
\<close>

definition mismatchRoots :: NpmLockedPackageDependencyMap where
  "mismatchRoots =
     [(''foo'', rootOf ''1.0.0'' (Some [(''bar'', ''1.0.0'')])),
      (''bar'', rootOf ''2.0.0'' None)]"



text \<open>
  The roots \<^verbatim>\<open>baz\<close> and \<^verbatim>\<open>qux\<close> both require \<^verbatim>\<open>foo\<close> at 1.1.0, while the root
  \<^verbatim>\<open>foo\<close> is at 1.0.0.
\<close>

definition sharedLockfile :: PnpmPackageLock where
  "sharedLockfile =
     \<lparr>dependencies = Some [(''foo'', ''1.0.0''), (''baz'', ''3.0.0''), (''qux'', ''4.0.0'')],
      devDependencies = None, optionalDependencies = None, lockfileVersion = 5,
      packages = [(''/foo/1.0.0'', plainSnapshot (Some ''sha-1'') None),
                  (''/baz/3.0.0'', plainSnapshot None (Some [(''foo'', ''1.1.0'')])),
                  (''/qux/4.0.0'', plainSnapshot None (Some [(''foo'', ''1.1.0'')])),
                  (''/foo/1.1.0'', plainSnapshot (Some ''sha-3'') None)],
      specifiers = []\<rparr>"

definition nestedFoo :: NpmLockedPackageSubDependency where
  "nestedFoo = \<lparr>sub_version = Some ''1.1.0'', sub_resolved = None, sub_integrity = Some ''sha-3''\<rparr>"

definition sharedOutput :: NpmPackageLock where
  "sharedOutput =
     \<lparr>out_requires = Some True, out_lockfileVersion = 1,
      out_dependencies =
        [(''foo'', (rootOf ''1.0.0'' None)\<lparr>dep_integrity := Some ''sha-1''\<rparr>),
         (''baz'', (rootOf ''3.0.0'' (Some [(''foo'', ''1.1.0'')]))
                     \<lparr>dep_dependencies := Some [(''foo'', nestedFoo)]\<rparr>),
         (''qux'', (rootOf ''4.0.0'' (Some [(''foo'', ''1.1.0'')]))
                     \<lparr>dep_dependencies := Some [(''foo'', nestedFoo)]\<rparr>)]\<rparr>"

text \<open>
  One name in two fields: at two versions in \<open>twoBuckets\<close>, and in \<open>aliasedBuckets\<close>
  as itself in the first field and as an alias of another package in the second.
\<close>

definition twoBuckets :: PnpmPackageLock where
  "twoBuckets =
     \<lparr>dependencies = Some [(''foo'', ''1.0.0'')], devDependencies = Some [(''foo'', ''2.0.0'')],
      optionalDependencies = None, lockfileVersion = 5,
      packages = [(''/foo/1.0.0'', plainSnapshot (Some ''sha-1'') None),
                  (''/foo/2.0.0'', plainSnapshot (Some ''sha-2'') None)],
      specifiers = []\<rparr>"

definition aliasedBuckets :: PnpmPackageLock where
  "aliasedBuckets =
     \<lparr>dependencies = Some [(''foo'', ''1.0.0'')],
      devDependencies = Some [(''foo'', ''/bar/2.0.0'')],
      optionalDependencies = None, lockfileVersion = 5,
      packages = [(''/foo/1.0.0'', plainSnapshot (Some ''sha-1'') None),
                  (''/bar/2.0.0'', plainSnapshot (Some ''sha-2'') None)],
      specifiers = []\<rparr>"

section \<open>Properties\<close>

subsection \<open>Strings and the regular expressions\<close>

lemma takeWhile_upto:
  "c \<notin> set xs \<Longrightarrow> takeWhile (\<lambda>x. x \<noteq> c) (xs @ c # ys) = xs"
  by (induction xs) auto

lemma dropWhile_upto:
  "c \<notin> set xs \<Longrightarrow> dropWhile (\<lambda>x. x \<noteq> c) (xs @ c # ys) = c # ys"
  by (induction xs) auto

lemma dropWhile_absent:
  "c \<notin> set xs \<Longrightarrow> dropWhile (\<lambda>x. x \<noteq> c) xs = []"
  by (induction xs) auto

lemma segment_append:
  "seg \<noteq> [] \<Longrightarrow> CHR ''/'' \<notin> set seg \<Longrightarrow> segment (seg @ CHR ''/'' # rest) = Some (seg, rest)"
  by (simp add: segment_def takeWhile_upto dropWhile_upto Let_def)

lemma segment_no_slash: "CHR ''/'' \<notin> set s \<Longrightarrow> segment s = None"
  by (simp add: segment_def dropWhile_absent Let_def)

lemma segment_SomeD:
  assumes "segment s = Some (seg, rest)"
  shows "s = seg @ CHR ''/'' # rest \<and> seg \<noteq> [] \<and> CHR ''/'' \<notin> set seg"
proof -
  let ?P = "\<lambda>c. c \<noteq> CHR ''/''"
  from assms have seg: "seg = takeWhile ?P s" and ne: "seg \<noteq> []"
    and dne: "dropWhile ?P s \<noteq> []" and rest: "rest = tl (dropWhile ?P s)"
    by (auto simp: segment_def Let_def split: if_splits)
  from dne have "hd (dropWhile ?P s) = CHR ''/''"
    using hd_dropWhile [of ?P s] by simp
  with dne rest have "dropWhile ?P s = CHR ''/'' # rest"
    by (cases "dropWhile ?P s") auto
  then have "s = seg @ CHR ''/'' # rest"
    using takeWhile_dropWhile_id [of ?P s] seg by simp
  moreover have "CHR ''/'' \<notin> set seg"
    using seg set_takeWhileD by fastforce
  ultimately show ?thesis using ne by simp
qed

lemma dropWhile_registry:
  "CHR ''/'' \<notin> set registry \<Longrightarrow> dropWhile (\<lambda>c. c \<noteq> CHR ''/'') (registry @ CHR ''/'' # r) = CHR ''/'' # r"
  by (simp add: dropWhile_upto)

lemma execPath_plain:
  assumes "CHR ''/'' \<notin> set registry" "name \<noteq> []" "CHR ''/'' \<notin> set name"
    "CHR ''/'' \<notin> set v" "\<not> list_ex isLineTerminator v"
  shows "execPath (registry @ ''/'' @ name @ ''/'' @ v) = Some (name, v)"
  using assms
  by (simp add: execPath_def dropWhile_registry segment_append segment_no_slash Let_def)

lemma execPath_scoped:
  assumes "CHR ''/'' \<notin> set registry" "scope \<noteq> []" "CHR ''/'' \<notin> set scope"
    "pkg \<noteq> []" "CHR ''/'' \<notin> set pkg" "\<not> list_ex isLineTerminator v"
  shows "execPath (registry @ ''/'' @ (''@'' @ scope @ ''/'' @ pkg) @ ''/'' @ v)
           = Some (''@'' @ scope @ ''/'' @ pkg, v)"
proof -
  have s1: "segment (CHR ''@'' # scope @ CHR ''/'' # pkg @ CHR ''/'' # v) = Some (CHR ''@'' # scope, pkg @ CHR ''/'' # v)"
    using segment_append [of "CHR ''@'' # scope" "pkg @ CHR ''/'' # v"] assms by simp
  have s2: "segment (pkg @ CHR ''/'' # v) = Some (pkg, v)"
    using segment_append assms by simp
  show ?thesis using assms
    by (simp add: execPath_def dropWhile_registry s1 s2 Let_def Suc_le_eq)
qed

lemma indexOf_split:
  "CHR ''_'' \<notin> set a \<Longrightarrow> indexOf (a @ CHR ''_'' # b) (CHR ''_'') = int (length a)"
  by (simp add: indexOf_def takeWhile_upto)

lemma split_first_underscore:
  assumes "CHR ''_'' \<notin> set a"
  shows "substr (a @ CHR ''_'' # b) 0 (indexOf (a @ CHR ''_'' # b) (CHR ''_'')) = a"
    and "substrFrom (a @ CHR ''_'' # b) (indexOf (a @ CHR ''_'' # b) (CHR ''_'') + 1) = b"
  using assms by (simp_all add: indexOf_split substr_def substrFrom_def nat_add_distrib)

subsection \<open>Identifier parser\<close>

text \<open>
  C5. A path-form key \<open>registry/name/version\<close> that does not start with the host
  prefix parses; the kind is Version when the key starts with a slash and Uri when the
  first segment is not empty; the version segment is split at its first underscore, the
  part before it being the version and the part after it the extra, which is absent when
  there is no underscore; a scoped name \<open>@scope/pkg\<close> is returned whole.
\<close>

theorem path_form_descriptor:
  assumes key: "key = registry @ ''/'' @ name @ ''/'' @ v"
    and nogh: "\<not> startsWith key ''github.com/''"
    and reg: "CHR ''/'' \<notin> set registry"
    and name: "(name \<noteq> [] \<and> CHR ''/'' \<notin> set name)
               \<or> (name = ''@'' @ scope @ ''/'' @ pkg \<and> scope \<noteq> [] \<and> CHR ''/'' \<notin> set scope
                    \<and> pkg \<noteq> [] \<and> CHR ''/'' \<notin> set pkg)"
    and v: "CHR ''/'' \<notin> set v" "\<not> list_ex isLineTerminator v"
  shows "\<exists>d. getPathPackageDesc key = Inr d
           \<and> fullName d = key \<and> desc_name d = name
           \<and> (startsWith key ''/'' \<longrightarrow> desc_type d = Version)
           \<and> (registry \<noteq> [] \<longrightarrow> desc_type d = Uri)
           \<and> (CHR ''_'' \<notin> set v \<longrightarrow> desc_version d = v \<and> extra d = None)
           \<and> (\<forall>a b. v = a @ ''_'' @ b \<and> CHR ''_'' \<notin> set a
                  \<longrightarrow> desc_version d = a \<and> extra d = Some b)"
proof -
  have ex: "execPath key = Some (name, v)"
    using name
  proof
    assume "name \<noteq> [] \<and> CHR ''/'' \<notin> set name"
    then show ?thesis unfolding key using execPath_plain reg v by blast
  next
    assume "name = ''@'' @ scope @ ''/'' @ pkg \<and> scope \<noteq> [] \<and> CHR ''/'' \<notin> set scope
              \<and> pkg \<noteq> [] \<and> CHR ''/'' \<notin> set pkg"
    then show ?thesis unfolding key using execPath_scoped reg v by blast
  qed
  have uri: "registry \<noteq> [] \<Longrightarrow> \<not> startsWith key ''/''"
    using reg unfolding key startsWith_def by (cases registry) auto
  have none: "CHR ''_'' \<notin> set v \<Longrightarrow> indexOf v (CHR ''_'') = - 1"
    by (simp add: indexOf_def)
  have some: "CHR ''_'' \<in> set v \<Longrightarrow> indexOf v (CHR ''_'') \<noteq> - 1"
    by (simp add: indexOf_def)
  show ?thesis
  proof (cases "CHR ''_'' \<in> set v")
    case False
    then show ?thesis
      using nogh ex uri none by (auto simp: getPathPackageDesc_def Let_def)
  next
    case True
    then show ?thesis
      using nogh ex uri some split_first_underscore
      by (auto simp: getPathPackageDesc_def Let_def)
  qed
qed

theorem path_form_descriptor_witness:
  "(\<exists>d. getPathPackageDesc ''/@pnpm/lockfile-file/1.1.3_@pnpm+logger@2.1.1'' = Inr d
      \<and> fullName d = ''/@pnpm/lockfile-file/1.1.3_@pnpm+logger@2.1.1''
      \<and> desc_name d = ''@pnpm/lockfile-file'' \<and> desc_type d = Version
      \<and> desc_version d = ''1.1.3'' \<and> extra d = Some ''@pnpm+logger@2.1.1'')
   \<and> (\<exists>d. getPathPackageDesc ''npm.example.com/axios/0.19.0'' = Inr d
      \<and> fullName d = ''npm.example.com/axios/0.19.0''
      \<and> desc_name d = ''axios'' \<and> desc_type d = Uri
      \<and> desc_version d = ''0.19.0'' \<and> extra d = None)"
proof
  obtain d where d: "getPathPackageDesc ''/@pnpm/lockfile-file/1.1.3_@pnpm+logger@2.1.1'' = Inr d"
      "fullName d = ''/@pnpm/lockfile-file/1.1.3_@pnpm+logger@2.1.1''"
      "desc_name d = ''@pnpm/lockfile-file''" "desc_type d = Version"
      "\<And>a b. ''1.1.3_@pnpm+logger@2.1.1'' = a @ ''_'' @ b \<Longrightarrow> CHR ''_'' \<notin> set a
         \<Longrightarrow> desc_version d = a \<and> extra d = Some b"
    using path_form_descriptor [of "''/@pnpm/lockfile-file/1.1.3_@pnpm+logger@2.1.1''" "[]"
        "''@pnpm/lockfile-file''" "''1.1.3_@pnpm+logger@2.1.1''" "''pnpm''" "''lockfile-file''"]
    by (auto simp: startsWith_def isLineTerminator_def)
  from d(5) [of "''1.1.3''" "''@pnpm+logger@2.1.1''"]
  have "desc_version d = ''1.1.3'' \<and> extra d = Some ''@pnpm+logger@2.1.1''"
    by simp
  with d(1-4)
  show "\<exists>d. getPathPackageDesc ''/@pnpm/lockfile-file/1.1.3_@pnpm+logger@2.1.1'' = Inr d
      \<and> fullName d = ''/@pnpm/lockfile-file/1.1.3_@pnpm+logger@2.1.1''
      \<and> desc_name d = ''@pnpm/lockfile-file'' \<and> desc_type d = Version
      \<and> desc_version d = ''1.1.3'' \<and> extra d = Some ''@pnpm+logger@2.1.1''"
    by blast
next
  show "\<exists>d. getPathPackageDesc ''npm.example.com/axios/0.19.0'' = Inr d
      \<and> fullName d = ''npm.example.com/axios/0.19.0''
      \<and> desc_name d = ''axios'' \<and> desc_type d = Uri
      \<and> desc_version d = ''0.19.0'' \<and> extra d = None"
    using path_form_descriptor [of "''npm.example.com/axios/0.19.0''" "''npm.example.com''"
        "''axios''" "''0.19.0''" "[]" "[]"]
    by (auto simp: startsWith_def isLineTerminator_def)
qed

lemma execGithub_shape:
  assumes "versionControlKey key owner repo commit"
  shows "execGithub key = Some (owner @ ''/'' @ repo, repo, commit)"
proof -
  from assms have key: "key = ''github.com/'' @ owner @ ''/'' @ repo @ ''/'' @ commit"
    and o: "owner \<noteq> []" "CHR ''/'' \<notin> set owner" and r: "repo \<noteq> []" "CHR ''/'' \<notin> set repo"
    and c: "length commit = 40" "list_all isHexDigit commit"
    by (simp_all add: versionControlKey_def)
  have s1: "segment (owner @ CHR ''/'' # repo @ CHR ''/'' # commit) = Some (owner, repo @ CHR ''/'' # commit)"
    using segment_append o by simp
  have s2: "segment (repo @ CHR ''/'' # commit) = Some (repo, commit)"
    using segment_append r by simp
  show ?thesis
    unfolding key using c by (simp add: execGithub_def isLineTerminator_def s1 s2)
qed

lemma execGithub_SomeD:
  assumes "execGithub key = Some (r1, r2, r3)" and "startsWith key ''github.com/''"
  shows "\<exists>owner. r1 = owner @ ''/'' @ r2 \<and> versionControlKey key owner r2 r3"
proof -
  from assms(1) obtain owner rest where s1: "segment (drop 11 key) = Some (owner, rest)"
    and s2: "segment rest = Some (r2, r3)" and r1: "r1 = owner @ ''/'' @ r2"
    and c: "length r3 = 40" "list_all isHexDigit r3"
    by (auto simp: execGithub_def split: if_splits option.splits)
  have len: "length ''github.com/'' = 11"
    by simp
  from assms(2) have "take 11 key = ''github.com/''"
    unfolding startsWith_def len .
  then have "key = ''github.com/'' @ drop 11 key"
    using append_take_drop_id [of 11 key] by simp
  with segment_SomeD [OF s1] segment_SomeD [OF s2] c r1 show ?thesis
    by (auto simp: versionControlKey_def)
qed

text \<open>
  C7. A key of the version-control grammar parses to kind Github, with the repository name
  as name and \<open>github:owner/repo#commit\<close> as version; a key that starts with the host
  prefix and is not of that grammar fails with a parse error that quotes the key.
\<close>

theorem version_control_descriptor:
  "(versionControlKey key owner repo commit \<longrightarrow>
      getPathPackageDesc key =
        Inr \<lparr>desc_type = Github, fullName = key, desc_name = repo,
             desc_version = ''github:'' @ owner @ ''/'' @ repo @ ''#'' @ commit, extra = None\<rparr>)
   \<and> (startsWith key ''github.com/''
        \<and> \<not> (\<exists>owner repo commit. versionControlKey key owner repo commit) \<longrightarrow>
      getPathPackageDesc key = Inl (Error (''Error parsing github URI '' @ key)))"
proof (intro conjI impI)
  assume vc: "versionControlKey key owner repo commit"
  then have "startsWith key ''github.com/''"
    by (simp add: versionControlKey_def startsWith_def)
  then show "getPathPackageDesc key =
        Inr \<lparr>desc_type = Github, fullName = key, desc_name = repo,
             desc_version = ''github:'' @ owner @ ''/'' @ repo @ ''#'' @ commit, extra = None\<rparr>"
    using execGithub_shape [OF vc]
    by (simp add: getPathPackageDesc_def getGithubPackageDesc_def)
next
  assume a: "startsWith key ''github.com/''
               \<and> \<not> (\<exists>owner repo commit. versionControlKey key owner repo commit)"
  then have "execGithub key = None"
    using execGithub_SomeD [of key] by (cases "execGithub key") auto
  with a show "getPathPackageDesc key = Inl (Error (''Error parsing github URI '' @ key))"
    by (simp add: getPathPackageDesc_def getGithubPackageDesc_def)
qed

theorem version_control_descriptor_witness:
  "versionControlKey ''github.com/LewisArdern/eslint-plugin/41da01727c87119bd523e69e22af2d04ab558ec9''
      ''LewisArdern'' ''eslint-plugin'' ''41da01727c87119bd523e69e22af2d04ab558ec9''
   \<and> getPathPackageDesc ''github.com/LewisArdern/eslint-plugin/41da01727c87119bd523e69e22af2d04ab558ec9'' =
       Inr \<lparr>desc_type = Github,
            fullName = ''github.com/LewisArdern/eslint-plugin/41da01727c87119bd523e69e22af2d04ab558ec9'',
            desc_name = ''eslint-plugin'',
            desc_version = ''github:LewisArdern/eslint-plugin#41da01727c87119bd523e69e22af2d04ab558ec9'',
            extra = None\<rparr>
   \<and> startsWith ''github.com/axios/0.19.0'' ''github.com/''
   \<and> \<not> (\<exists>owner repo commit. versionControlKey ''github.com/axios/0.19.0'' owner repo commit)
   \<and> getPathPackageDesc ''github.com/axios/0.19.0'' =
       Inl (Error ''Error parsing github URI github.com/axios/0.19.0'')"
proof -
  have vc: "versionControlKey ''github.com/LewisArdern/eslint-plugin/41da01727c87119bd523e69e22af2d04ab558ec9''
      ''LewisArdern'' ''eslint-plugin'' ''41da01727c87119bd523e69e22af2d04ab558ec9''"
    by (simp add: versionControlKey_def isHexDigit_def)
  have sw: "startsWith ''github.com/axios/0.19.0'' ''github.com/''"
    by (simp add: startsWith_def)
  have ev: "getPathPackageDesc ''github.com/axios/0.19.0'' =
       Inl (Error ''Error parsing github URI github.com/axios/0.19.0'')"
    by (simp add: getPathPackageDesc_def getGithubPackageDesc_def startsWith_def execGithub_def
        segment_def isLineTerminator_def)
  have no: "\<not> (\<exists>owner repo commit. versionControlKey ''github.com/axios/0.19.0'' owner repo commit)"
  proof
    assume "\<exists>owner repo commit. versionControlKey ''github.com/axios/0.19.0'' owner repo commit"
    then obtain owner repo commit
      where "versionControlKey ''github.com/axios/0.19.0'' owner repo commit" by blast
    with version_control_descriptor [of "''github.com/axios/0.19.0''" owner repo commit] ev
    show False by simp
  qed
  from vc sw no ev
    version_control_descriptor [of "''github.com/LewisArdern/eslint-plugin/41da01727c87119bd523e69e22af2d04ab558ec9''"
      "''LewisArdern''" "''eslint-plugin''" "''41da01727c87119bd523e69e22af2d04ab558ec9''"]
  show ?thesis by simp
qed

subsection \<open>Package resolver\<close>

lemma getPackage_Some:
  assumes "map_of (packages lockfile) (fullName packageDesc) = Some snapshot"
  shows "\<exists>dep. getPackage lockfile packageDesc remove =
             Inr (dep, if remove
                       then lockfile\<lparr>packages :=
                              AList.delete (fullName packageDesc) (packages lockfile)\<rparr>
                       else lockfile)
           \<and> dep_version dep = Some (desc_version packageDesc)
           \<and> dep_resolved dep = None
           \<and> dep_from dep =
               (if desc_type packageDesc = Github
                then (case snap_name snapshot of
                        None \<Rightarrow> None
                      | Some n \<Rightarrow> map_of (specifiers lockfile) n)
                else None)
           \<and> dep_integrity dep = res_integrity (resolution snapshot)
           \<and> dep_requires dep = snap_dependencies snapshot
           \<and> dep_dependencies dep = None
           \<and> dep_dev dep = (if snap_dev snapshot = Some True then Some True else None)"
  using assms by (simp add: getPackage_def Let_def split: option.split)

lemma getPackage_missing:
  assumes "map_of (packages lockfile) (fullName packageDesc) = None"
  shows "getPackage lockfile packageDesc remove =
           Inl (Error (''Failed to lookup '' @ fullName packageDesc @ '' in packages''))"
  using assms by (simp add: getPackage_def)

lemma getPackage_fields:
  assumes "getPackage lockfile packageDesc remove = Inr (dep, lockfile')"
  shows "\<exists>snapshot. map_of (packages lockfile) (fullName packageDesc) = Some snapshot
           \<and> dep_version dep = Some (desc_version packageDesc)
           \<and> dep_resolved dep = None
           \<and> dep_from dep =
               (if desc_type packageDesc = Github
                then (case snap_name snapshot of
                        None \<Rightarrow> None
                      | Some n \<Rightarrow> map_of (specifiers lockfile) n)
                else None)
           \<and> dep_integrity dep = res_integrity (resolution snapshot)
           \<and> dep_requires dep = snap_dependencies snapshot
           \<and> dep_dependencies dep = None
           \<and> dep_dev dep = (if snap_dev snapshot = Some True then Some True else None)"
proof (cases "map_of (packages lockfile) (fullName packageDesc)")
  case None
  from getPackage_missing [OF None] assms show ?thesis by simp
next
  case (Some snapshot)
  from getPackage_Some [OF Some, of remove] assms Some show ?thesis by auto
qed

lemma getPackage_lockfile:
  assumes "getPackage lockfile packageDesc remove = Inr (dep, lockfile')"
  shows "lockfile' = (if remove
                      then lockfile\<lparr>packages := AList.delete (fullName packageDesc) (packages lockfile)\<rparr>
                      else lockfile)"
proof (cases "map_of (packages lockfile) (fullName packageDesc)")
  case None
  from getPackage_missing [OF None] assms show ?thesis by simp
next
  case (Some snapshot)
  from getPackage_Some [OF Some, of remove] assms show ?thesis by auto
qed

lemma getPackage_total:
  assumes "map_of (packages lockfile) (fullName packageDesc) = Some snapshot"
  shows "\<exists>dep lockfile'. getPackage lockfile packageDesc remove = Inr (dep, lockfile')"
  using getPackage_Some [OF assms] by blast

text \<open>
  C8. The record that the resolver builds from a snapshot has \<open>dev\<close> set to true exactly
  when the snapshot is marked \<^verbatim>\<open>dev: true\<close>; otherwise the field is absent. It is never
  present with the value false.
\<close>

theorem resolver_dev_flag:
  assumes "map_of (packages lockfile) (fullName packageDesc) = Some snapshot"
  shows "\<exists>dep lockfile'. getPackage lockfile packageDesc remove = Inr (dep, lockfile')
           \<and> (dep_dev dep = Some True \<longleftrightarrow> snap_dev snapshot = Some True)
           \<and> (snap_dev snapshot \<noteq> Some True \<longrightarrow> dep_dev dep = None)
           \<and> dep_dev dep \<noteq> Some False"
proof -
  from getPackage_total [OF assms] obtain dep lockfile'
    where g: "getPackage lockfile packageDesc remove = Inr (dep, lockfile')" by blast
  from getPackage_fields [OF g] assms
  have "dep_dev dep = (if snap_dev snapshot = Some True then Some True else None)"
    by auto
  with g show ?thesis by auto
qed

theorem resolver_dev_flag_witness:
  "(\<exists>dep lockfile'.
      getPackage devLockfile
        \<lparr>desc_type = Version, fullName = ''/jest/26.0.0'', desc_name = ''jest'',
         desc_version = ''26.0.0'', extra = None\<rparr> True = Inr (dep, lockfile')
      \<and> dep_dev dep = Some True)
   \<and> (\<exists>dep lockfile'.
      getPackage devLockfile
        \<lparr>desc_type = Version, fullName = ''/left-pad/1.3.0'', desc_name = ''left-pad'',
         desc_version = ''1.3.0'', extra = None\<rparr> False = Inr (dep, lockfile')
      \<and> dep_dev dep = None)"
proof
  have "map_of (packages devLockfile) ''/jest/26.0.0'' = Some (devSnapshot True)"
    by (simp add: devLockfile_def)
  from resolver_dev_flag [where packageDesc = "\<lparr>desc_type = Version, fullName = ''/jest/26.0.0'',
      desc_name = ''jest'', desc_version = ''26.0.0'', extra = None\<rparr>" and remove = True,
      simplified, OF this]
  show "\<exists>dep lockfile'.
      getPackage devLockfile
        \<lparr>desc_type = Version, fullName = ''/jest/26.0.0'', desc_name = ''jest'',
         desc_version = ''26.0.0'', extra = None\<rparr> True = Inr (dep, lockfile')
      \<and> dep_dev dep = Some True"
    by (auto simp: devSnapshot_def)
next
  have "map_of (packages devLockfile) ''/left-pad/1.3.0'' = Some (devSnapshot False)"
    by (simp add: devLockfile_def)
  from resolver_dev_flag [where packageDesc = "\<lparr>desc_type = Version, fullName = ''/left-pad/1.3.0'',
      desc_name = ''left-pad'', desc_version = ''1.3.0'', extra = None\<rparr>" and remove = False,
      simplified, OF this]
  show "\<exists>dep lockfile'.
      getPackage devLockfile
        \<lparr>desc_type = Version, fullName = ''/left-pad/1.3.0'', desc_name = ''left-pad'',
         desc_version = ''1.3.0'', extra = None\<rparr> False = Inr (dep, lockfile')
      \<and> dep_dev dep = None"
    by (auto simp: devSnapshot_def)
qed

subsection \<open>Entry point\<close>

text \<open>
  C2, as stated, fails: when the lockfile does not exist the entry point aborts with an
  error of its own.
\<close>

theorem entry_point_missing_file_counterexample:
  "processPnpmLockfile DEPENDENCIES_FIELDS missingFile ''pnpm-lock.yaml'' =
     Inl (Error ''Failed to load pnpm lock file pnpm-lock.yaml'')"
  by (simp add: processPnpmLockfile_def readPnpmLockfile_def missingFile_def)

text \<open>
  C2, amended. When reading the lockfile is rejected with code \<^verbatim>\<open>ENOENT\<close>, the loader
  returns no document instead of propagating the rejection, and the entry point then fails
  with its own error, which names the path; a rejection with any other code, or with none,
  propagates unchanged through the loader and the entry point; a document that is read is
  converted.
\<close>

theorem entry_point_read_failures:
  "(readYamlFile lockfilePath = Inl err \<and> code err = Some ''ENOENT'' \<longrightarrow>
      readPnpmLockfile readYamlFile lockfilePath = Inr None
      \<and> processPnpmLockfile depFields readYamlFile lockfilePath =
          Inl (Error (''Failed to load pnpm lock file '' @ lockfilePath)))
   \<and> (readYamlFile lockfilePath = Inl err \<and> code err \<noteq> Some ''ENOENT'' \<longrightarrow>
      readPnpmLockfile readYamlFile lockfilePath = Inl err
      \<and> processPnpmLockfile depFields readYamlFile lockfilePath = Inl err)
   \<and> (readYamlFile lockfilePath = Inr lockfile \<longrightarrow>
      readPnpmLockfile readYamlFile lockfilePath = Inr (Some lockfile)
      \<and> processPnpmLockfile depFields readYamlFile lockfilePath =
          processLockfile depFields lockfile)"
  by (simp add: processPnpmLockfile_def readPnpmLockfile_def)

theorem entry_point_read_failures_witness:
  "readPnpmLockfile missingFile ''pnpm-lock.yaml'' = Inr None
   \<and> processPnpmLockfile DEPENDENCIES_FIELDS missingFile ''pnpm-lock.yaml'' =
       Inl (Error ''Failed to load pnpm lock file pnpm-lock.yaml'')
   \<and> readPnpmLockfile unreadableFile ''pnpm-lock.yaml'' =
       Inl (Rejected (Some ''EACCES'') ''permission denied'')
   \<and> processPnpmLockfile DEPENDENCIES_FIELDS unreadableFile ''pnpm-lock.yaml'' =
       Inl (Rejected (Some ''EACCES'') ''permission denied'')
   \<and> processPnpmLockfile DEPENDENCIES_FIELDS (\<lambda>path. Inr devLockfile) ''pnpm-lock.yaml'' =
       processLockfile DEPENDENCIES_FIELDS devLockfile"
proof -
  have m: "missingFile ''pnpm-lock.yaml'' = Inl (Rejected (Some ''ENOENT'') ''no such file or directory'')
           \<and> code (Rejected (Some ''ENOENT'') ''no such file or directory'') = Some ''ENOENT''"
    by (simp add: missingFile_def)
  have u: "unreadableFile ''pnpm-lock.yaml'' = Inl (Rejected (Some ''EACCES'') ''permission denied'')
           \<and> code (Rejected (Some ''EACCES'') ''permission denied'') \<noteq> Some ''ENOENT''"
    by (simp add: unreadableFile_def)
  from m u
    entry_point_read_failures [of missingFile "''pnpm-lock.yaml''"
      "Rejected (Some ''ENOENT'') ''no such file or directory''" DEPENDENCIES_FIELDS]
    entry_point_read_failures [of unreadableFile "''pnpm-lock.yaml''"
      "Rejected (Some ''EACCES'') ''permission denied''" DEPENDENCIES_FIELDS]
    entry_point_read_failures [of "\<lambda>path. Inr devLockfile" "''pnpm-lock.yaml''" _
      DEPENDENCIES_FIELDS devLockfile]
  show ?thesis by simp
qed

subsection \<open>Association lists\<close>

lemma update_in_place:
  "k \<notin> fst ` set xs \<Longrightarrow> AList.update k v (xs @ (k, w) # ys) = xs @ (k, v) # ys"
  by (induction xs) auto

lemma set_update_subset: "set (AList.update k v al) \<subseteq> insert (k, v) (set al)"
  by (induction al) auto

lemma update_keys_present:
  "k \<in> fst ` set al \<Longrightarrow> map fst (AList.update k v al) = map fst al"
  by (simp add: update_keys)

lemma map_of_update_other:
  "k' \<noteq> k \<Longrightarrow> map_of (AList.update k v al) k' = map_of al k'"
  by (simp add: update_conv')

lemma map_of_update_same: "map_of (AList.update k v al) k = Some v"
  by (simp add: update_conv')

lemma map_of_mem: "map_of al k = Some v \<Longrightarrow> (k, v) \<in> set al"
  by (rule map_of_SomeD)

lemma map_of_dom: "(map_of al k \<noteq> None) = (k \<in> fst ` set al)"
  by (simp add: map_of_eq_None_iff)

subsection \<open>The loop over the requires of one root\<close>

lemma removeExtraneous_core: "sameCore val (removeExtraneous name packageDesc val)"
  by (simp add: removeExtraneous_def sameCore_def)

lemma removeExtraneous_nested:
  "dep_dependencies (removeExtraneous name packageDesc val) = dep_dependencies val"
  by (simp add: removeExtraneous_def)

lemma removeExtraneous_requires:
  "dep_requires val = Some rs \<Longrightarrow>
   dep_requires (removeExtraneous name packageDesc val) =
     Some (if extra packageDesc \<noteq> None \<or> desc_type packageDesc = Uri
           then AList.update name (desc_version packageDesc) rs else rs)"
  by (simp add: removeExtraneous_def)

lemma declareOrCheck_core:
  "declareOrCheck deps subdeps key name packageDesc val = Inr val' \<Longrightarrow> sameCore val val'"
  by (auto simp: declareOrCheck_def sameCore_def Let_def split: option.splits if_splits)

lemma declareOrCheck_requires:
  "declareOrCheck deps subdeps key name packageDesc val = Inr val' \<Longrightarrow>
   dep_requires val' = dep_requires val"
  by (auto simp: declareOrCheck_def Let_def split: option.splits if_splits)

lemma declareOrCheck_nested:
  assumes "declareOrCheck deps subdeps key name packageDesc val = Inr val'"
  shows "(case map_of subdeps (fullName packageDesc) of
            None \<Rightarrow> val' = val
          | Some dep \<Rightarrow>
              dep_dependencies val' =
                Some (AList.update name (getSubDependencyFromDependency dep) (nested val)))"
  using assms
  by (auto simp: declareOrCheck_def nested_def Let_def split: option.splits if_splits)

lemma sameCore_refl: "sameCore a a"
  by (simp add: sameCore_def)

lemma sameCore_trans: "sameCore a b \<Longrightarrow> sameCore b c \<Longrightarrow> sameCore a c"
  by (simp add: sameCore_def)

lemma requiresOf_core:
  "requiresOf deps subdeps key rs val = Inr val' \<Longrightarrow> sameCore val val'"
proof (induction rs arbitrary: val)
  case Nil
  then show ?case by (simp add: sameCore_refl)
next
  case (Cons r rs)
  obtain name version where r: "r = (name, version)" by (cases r)
  from Cons.prems obtain d v1 where
    d: "getDependencyPackageDesc name version = Inr d"
    and s: "declareOrCheck deps subdeps key name d val = Inr v1"
    and rest: "requiresOf deps subdeps key rs (removeExtraneous name d v1) = Inr val'"
    by (auto simp: r split: sum.splits)
  from declareOrCheck_core [OF s] removeExtraneous_core [of v1 name d] Cons.IH [OF rest]
  show ?case by (blast intro: sameCore_trans)
qed

lemma requiresOf_requires_gen:
  assumes "requiresOf deps subdeps key rs val = Inr val'"
    and "dep_requires val = Some (done @ rs)"
    and "distinct (map fst (done @ rs))"
  shows "dep_requires val' = Some (done @ map rewritten rs)"
  using assms
proof (induction rs arbitrary: val "done")
  case Nil
  then show ?case by simp
next
  case (Cons r rs)
  obtain name version where r: "r = (name, version)" by (cases r)
  from Cons.prems(1) obtain d v1 where
    d: "getDependencyPackageDesc name version = Inr d"
    and s: "declareOrCheck deps subdeps key name d val = Inr v1"
    and rest: "requiresOf deps subdeps key rs (removeExtraneous name d v1) = Inr val'"
    by (auto simp: r split: sum.splits)
  from Cons.prems(3) have notin: "name \<notin> fst ` set done"
    by (auto simp: r)
  have rq: "dep_requires v1 = Some (done @ (name, version) # rs)"
    using declareOrCheck_requires [OF s] Cons.prems(2) by (simp add: r)
  have "dep_requires (removeExtraneous name d v1) = Some (done @ rewritten (name, version) # rs)"
    using removeExtraneous_requires [OF rq, of name d] d update_in_place [OF notin]
    by (simp add: rewritten_def)
  then have rq': "dep_requires (removeExtraneous name d v1) =
                    Some ((done @ [rewritten (name, version)]) @ rs)"
    by simp
  have fst_rw: "fst (rewritten (name, version)) = name"
    by (simp add: rewritten_def split: sum.splits)
  have dist: "distinct (map fst ((done @ [rewritten (name, version)]) @ rs))"
    using Cons.prems(3) by (simp add: r fst_rw)
  from Cons.IH [OF rest rq' dist] show ?case
    by (simp add: r)
qed

lemma requiresOf_requires:
  assumes "requiresOf deps subdeps key rs val = Inr val'"
    and "dep_requires val = Some rs"
    and "distinct (map fst rs)"
  shows "dep_requires val' = Some (map rewritten rs)"
  using requiresOf_requires_gen [of deps subdeps key rs val val' "[]"] assms by simp

lemma requiresOf_parses:
  assumes "requiresOf deps subdeps key rs val = Inr val'"
    and "(name, version) \<in> set rs"
  shows "\<exists>d. getDependencyPackageDesc name version = Inr d"
  using assms
proof (induction rs arbitrary: val)
  case Nil
  then show ?case by simp
next
  case (Cons r rs)
  obtain n v where r: "r = (n, v)" by (cases r)
  from Cons.prems(1) obtain d v1 where
    d: "getDependencyPackageDesc n v = Inr d"
    and rest: "requiresOf deps subdeps key rs (removeExtraneous n d v1) = Inr val'"
    by (auto simp: r split: sum.splits)
  show ?case
  proof (cases "(name, version) = (n, v)")
    case True
    with d show ?thesis by auto
  next
    case False
    with Cons.prems(2) r have "(name, version) \<in> set rs" by auto
    from Cons.IH [OF rest this] show ?thesis .
  qed
qed

subsection \<open>The version check of the third loop\<close>

lemma declareOrCheck_mismatch:
  assumes "map_of subdeps (fullName packageDesc) = None"
    and "map_of deps name = Some dep"
    and "dep_version dep \<noteq> Some (desc_version packageDesc)"
  shows "declareOrCheck deps subdeps key name packageDesc val =
           Inl (Error (''Failed to lookup '' @ fullName packageDesc
                         @ '' in dependencies; used by '' @ key))"
  using assms by (simp add: declareOrCheck_def)

lemma declareOrCheck_match:
  assumes "map_of subdeps (fullName packageDesc) = None"
    and "map_of deps name = Some dep"
    and "dep_version dep = Some (desc_version packageDesc)"
  shows "declareOrCheck deps subdeps key name packageDesc val = Inr val"
  using assms by (simp add: declareOrCheck_def)

lemma declareOrCheck_absent:
  assumes "map_of subdeps (fullName packageDesc) = None"
    and "map_of deps name = None"
  shows "declareOrCheck deps subdeps key name packageDesc val =
           Inl (TypeError ''Cannot read properties of undefined (reading 'version')'')"
  using assms by (simp add: declareOrCheck_def)

lemma declareOrCheck_staged:
  assumes "map_of subdeps (fullName packageDesc) = Some dep"
  shows "declareOrCheck deps subdeps key name packageDesc val =
           Inr (val\<lparr>dep_dependencies :=
                  Some (AList.update name (getSubDependencyFromDependency dep)
                          (case dep_dependencies val of None \<Rightarrow> [] | Some ds \<Rightarrow> ds))\<rparr>)"
  using assms by (simp add: declareOrCheck_def)

lemma requiresOf_mismatch:
  assumes "(name, version) \<in> set rs"
    and "getDependencyPackageDesc name version = Inr packageDesc"
    and "map_of subdeps (fullName packageDesc) = None"
    and "map_of deps name = Some dep"
    and "dep_version dep \<noteq> Some (desc_version packageDesc)"
  shows "\<exists>e. requiresOf deps subdeps key rs val = Inl e"
  using assms(1)
proof (induction rs arbitrary: val)
  case Nil
  then show ?case by simp
next
  case (Cons r rs)
  obtain n v where r: "r = (n, v)" by (cases r)
  show ?case
  proof (cases "r = (name, version)")
    case True
    with assms(2) declareOrCheck_mismatch [OF assms(3-5)] show ?thesis
      by simp
  next
    case False
    with Cons.prems have "(name, version) \<in> set rs" by simp
    from Cons.IH [OF this] show ?thesis
      by (auto simp: r split: sum.splits)
  qed
qed

lemma requiredSubdependencies_mismatch:
  assumes "(key, val) \<in> set es"
    and "dep_requires val = Some rs"
    and "(name, version) \<in> set rs"
    and "getDependencyPackageDesc name version = Inr packageDesc"
    and "map_of subdeps (fullName packageDesc) = None"
    and "map_of deps name = Some dep"
    and "dep_version dep \<noteq> Some (desc_version packageDesc)"
    and "\<forall>(k, v) \<in> set es. \<exists>d0. map_of deps k = Some d0 \<and> dep_version d0 = dep_version v"
  shows "\<exists>e. requiredSubdependencies es subdeps deps = Inl e"
  using assms(1,6,7,8)
proof (induction es arbitrary: deps dep)
  case Nil
  then show ?case by simp
next
  case (Cons e es)
  obtain k v where e: "e = (k, v)" by (cases e)
  from Cons.prems(4) obtain d0 where d0: "map_of deps k = Some d0" "dep_version d0 = dep_version v"
    by (auto simp: e)
  from Cons.prems(4) have inv: "\<forall>(k, v) \<in> set es. \<exists>d0. map_of deps k = Some d0
                                  \<and> dep_version d0 = dep_version v"
    by simp
  show ?case
  proof (cases "dep_requires v")
    case None
    with Cons.prems(1) assms(2) have "(key, val) \<in> set es" by (auto simp: e)
    from Cons.IH [OF this Cons.prems(2,3) inv] None show ?thesis
      by (simp add: e)
  next
    case (Some rs0)
    show ?thesis
    proof (cases "requiresOf deps subdeps k rs0 v")
      case (Inl err)
      with Some show ?thesis by (simp add: e)
    next
      case (Inr v')
      have here: "(key, val) \<noteq> (k, v)"
      proof
        assume "(key, val) = (k, v)"
        with Some assms(2) have "rs0 = rs" "k = key" "v = val" by simp_all
        with requiresOf_mismatch [OF assms(3,4,5) Cons.prems(2,3), of key val] Inr
        show False by simp
      qed
      with Cons.prems(1) have mem: "(key, val) \<in> set es" by (auto simp: e)
      have core: "dep_version v' = dep_version v"
        using requiresOf_core [OF Inr] by (simp add: sameCore_def)
      let ?deps1 = "AList.update k v' deps"
      have look: "\<exists>dep1. map_of ?deps1 name = Some dep1
                    \<and> dep_version dep1 \<noteq> Some (desc_version packageDesc)"
      proof (cases "name = k")
        case True
        with d0 Cons.prems(2) have "d0 = dep" by simp
        with core d0(2) Cons.prems(3) True show ?thesis
          by (simp add: map_of_update_same)
      next
        case False
        with Cons.prems(2,3) show ?thesis
          by (simp add: map_of_update_other)
      qed
      have inv1: "\<forall>(k2, v2) \<in> set es. \<exists>d2. map_of ?deps1 k2 = Some d2
                    \<and> dep_version d2 = dep_version v2"
      proof (intro ballI, clarify)
        fix k2 v2
        assume m2: "(k2, v2) \<in> set es"
        with inv obtain d2 where d2: "map_of deps k2 = Some d2" "dep_version d2 = dep_version v2"
          by auto
        show "\<exists>d2. map_of ?deps1 k2 = Some d2 \<and> dep_version d2 = dep_version v2"
        proof (cases "k2 = k")
          case True
          with d0 d2 have "dep_version v = dep_version v2" by simp
          with core True show ?thesis by (simp add: map_of_update_same)
        next
          case False
          with d2 show ?thesis by (simp add: map_of_update_other)
        qed
      qed
      from look obtain dep1 where l1: "map_of ?deps1 name = Some dep1"
        and l2: "dep_version dep1 \<noteq> Some (desc_version packageDesc)"
        by blast
      from Cons.IH [OF mem l1 l2 inv1] Some Inr show ?thesis
        by (simp add: e)
    qed
  qed
qed

text \<open>
  The check where the root map has an entry for the required name. For a requires entry
  whose full key is not staged and whose name has an entry in the root map, the step fails
  exactly when the version of that entry differs from the version of the descriptor. The error then quotes the full key of the required package and the
  key of the root that uses it, and it ends the conversion: the loop over the requires of
  the root fails, and so does the third loop over a root map that holds such a root. When
  the versions are equal the step returns the root unchanged.
\<close>

theorem root_version_check:
  assumes "map_of subdeps (fullName packageDesc) = None"
    and "map_of deps name = Some dep"
  shows "((\<exists>e. declareOrCheck deps subdeps key name packageDesc val = Inl e)
            \<longleftrightarrow> dep_version dep \<noteq> Some (desc_version packageDesc))
         \<and> (dep_version dep \<noteq> Some (desc_version packageDesc) \<longrightarrow>
              declareOrCheck deps subdeps key name packageDesc val =
                Inl (Error (''Failed to lookup '' @ fullName packageDesc
                              @ '' in dependencies; used by '' @ key)))
         \<and> (dep_version dep \<noteq> Some (desc_version packageDesc)
              \<and> (name, version) \<in> set rs
              \<and> getDependencyPackageDesc name version = Inr packageDesc \<longrightarrow>
              (\<exists>e. requiresOf deps subdeps key rs val = Inl e)
              \<and> (distinct (map fst deps) \<and> (key, val) \<in> set deps
                     \<and> dep_requires val = Some rs \<longrightarrow>
                   (\<exists>e. requiredSubdependencies deps subdeps deps = Inl e)))
         \<and> (dep_version dep = Some (desc_version packageDesc) \<longrightarrow>
              declareOrCheck deps subdeps key name packageDesc val = Inr val)"
proof (cases "dep_version dep = Some (desc_version packageDesc)")
  case True
  with declareOrCheck_match [OF assms True] show ?thesis by simp
next
  case False
  have loop: "\<exists>e. requiredSubdependencies deps subdeps deps = Inl e"
    if "(name, version) \<in> set rs" "getDependencyPackageDesc name version = Inr packageDesc"
      "distinct (map fst deps)" "(key, val) \<in> set deps" "dep_requires val = Some rs"
  proof -
    from that(3) have "\<forall>(k, v) \<in> set deps. \<exists>d0. map_of deps k = Some d0
                         \<and> dep_version d0 = dep_version v"
      by auto
    from requiredSubdependencies_mismatch [OF that(4,5,1,2) assms False this]
    show ?thesis .
  qed
  from declareOrCheck_mismatch [OF assms False] requiresOf_mismatch [OF _ _ assms False]
    False loop
  show ?thesis by auto
qed

theorem root_version_check_witness:
  "declareOrCheck mismatchRoots [] ''foo'' ''bar'' (versionDesc ''bar'' ''1.0.0'')
       (rootOf ''1.0.0'' (Some [(''bar'', ''1.0.0'')])) =
     Inl (Error ''Failed to lookup /bar/1.0.0 in dependencies; used by foo'')
   \<and> (\<exists>e. requiresOf mismatchRoots [] ''foo'' [(''bar'', ''1.0.0'')]
              (rootOf ''1.0.0'' (Some [(''bar'', ''1.0.0'')])) = Inl e)
   \<and> (\<exists>e. requiredSubdependencies mismatchRoots [] mismatchRoots = Inl e)
   \<and> declareOrCheck mismatchRoots [] ''foo'' ''bar'' (versionDesc ''bar'' ''2.0.0'')
         (rootOf ''1.0.0'' (Some [(''bar'', ''1.0.0'')])) =
       Inr (rootOf ''1.0.0'' (Some [(''bar'', ''1.0.0'')]))"
proof -
  let ?bar = "rootOf ''2.0.0'' None"
  let ?foo = "rootOf ''1.0.0'' (Some [(''bar'', ''1.0.0'')])"
  let ?old = "versionDesc ''bar'' ''1.0.0''"
  let ?new = "versionDesc ''bar'' ''2.0.0''"
  have d: "getDependencyPackageDesc ''bar'' ''1.0.0'' = Inr ?old"
    by (simp add: getDependencyPackageDesc_def getPathPackageDesc_def isDigit_def
        startsWith_def execPath_def segment_def isLineTerminator_def indexOf_def
        versionDesc_def)
  have a: "map_of ([]::NpmLockedPackageDependencyMap) (fullName (versionDesc n v)) = None"
    for n v
    by simp
  have b: "map_of mismatchRoots ''bar'' = Some ?bar"
    by (simp add: mismatchRoots_def)
  have m: "dep_version ?bar \<noteq> Some (desc_version ?old)"
    by (simp add: rootOf_def versionDesc_def)
  have e: "dep_version ?bar = Some (desc_version ?new)"
    by (simp add: rootOf_def versionDesc_def)
  have mem: "(''bar'', ''1.0.0'') \<in> set [(''bar'', ''1.0.0'')]"
    by simp
  have dist: "distinct (map fst mismatchRoots)"
    by (simp add: mismatchRoots_def)
  have root: "(''foo'', ?foo) \<in> set mismatchRoots"
    by (simp add: mismatchRoots_def)
  have rq: "dep_requires ?foo = Some [(''bar'', ''1.0.0'')]"
    by (simp add: rootOf_def)
  note r1 = root_version_check [where packageDesc = ?old and key = "''foo''" and val = ?foo
      and version = "''1.0.0''" and rs = "[(''bar'', ''1.0.0'')]", OF a b]
  note r2 = root_version_check [where packageDesc = ?new and key = "''foo''" and val = ?foo,
      OF a b]
  from r1 m have "declareOrCheck mismatchRoots [] ''foo'' ''bar'' ?old ?foo =
      Inl (Error (''Failed to lookup '' @ fullName ?old
                    @ '' in dependencies; used by '' @ ''foo''))"
    by blast
  then have c1: "declareOrCheck mismatchRoots [] ''foo'' ''bar'' ?old ?foo =
      Inl (Error ''Failed to lookup /bar/1.0.0 in dependencies; used by foo'')"
    by (simp add: versionDesc_def)
  from r1 m mem d
  have c2: "\<exists>e. requiresOf mismatchRoots [] ''foo'' [(''bar'', ''1.0.0'')] ?foo = Inl e"
    by blast
  from r1 m mem d dist root rq
  have c3: "\<exists>e. requiredSubdependencies mismatchRoots [] mismatchRoots = Inl e"
    by blast
  from r2 e have c4: "declareOrCheck mismatchRoots [] ''foo'' ''bar'' ?new ?foo = Inr ?foo"
    by blast
  from c1 c2 c3 c4 show ?thesis by blast
qed

text \<open>
  C3 fails on the code. In \<open>aliasLockfile\<close>, after the first two loops, the requires
  entry \<^verbatim>\<open>my-lodash\<close> of the root \<^verbatim>\<open>app\<close> parses to the full key
  \<^verbatim>\<open>/lodash/4.17.21\<close>, which is not staged, and the root map has no entry of the
  name \<^verbatim>\<open>my-lodash\<close>, so no entry has a version that differs from the descriptor.
  The step fails all the same, with a \<^verbatim>\<open>TypeError\<close> whose message holds neither the
  full key nor the name, and the third loop ends with that error.
\<close>

theorem absent_root_error_names_no_key:
  "directDependencies DEPENDENCIES_FIELDS ([], aliasLockfile) =
     Inr ([(''app'', rootOf ''1.0.0'' (Some [(''my-lodash'', ''/lodash/4.17.21'')]))],
          aliasRemaining)
   \<and> remainingPackages (map fst (packages aliasRemaining)) aliasRemaining
         ([(''app'', rootOf ''1.0.0'' (Some [(''my-lodash'', ''/lodash/4.17.21'')]))], []) =
       Inr (aliasRoots, [])
   \<and> getDependencyPackageDesc ''my-lodash'' ''/lodash/4.17.21'' =
       Inr (versionDesc ''lodash'' ''4.17.21'')
   \<and> map_of ([]::NpmLockedPackageDependencyMap) (fullName (versionDesc ''lodash'' ''4.17.21''))
       = None
   \<and> map_of aliasRoots ''my-lodash'' = None
   \<and> declareOrCheck aliasRoots [] ''app'' ''my-lodash'' (versionDesc ''lodash'' ''4.17.21'')
         (rootOf ''1.0.0'' (Some [(''my-lodash'', ''/lodash/4.17.21'')])) =
       Inl (TypeError ''Cannot read properties of undefined (reading 'version')'')
   \<and> \<not> sublist ''/lodash/4.17.21'' ''Cannot read properties of undefined (reading 'version')''
   \<and> \<not> sublist ''my-lodash'' ''Cannot read properties of undefined (reading 'version')''
   \<and> requiredSubdependencies aliasRoots [] aliasRoots =
       Inl (TypeError ''Cannot read properties of undefined (reading 'version')'')"
proof -
  let ?msg = "''Cannot read properties of undefined (reading 'version')''"
  have a: "directDependencies DEPENDENCIES_FIELDS ([], aliasLockfile) =
     Inr ([(''app'', rootOf ''1.0.0'' (Some [(''my-lodash'', ''/lodash/4.17.21'')]))],
          aliasRemaining)"
    by (simp add: DEPENDENCIES_FIELDS_def aliasLockfile_def aliasRemaining_def plainSnapshot_def
        rootOf_def getDependencyPackageDesc_def getPathPackageDesc_def getPackage_def
        isDigit_def startsWith_def execPath_def segment_def isLineTerminator_def indexOf_def)
  have b: "remainingPackages (map fst (packages aliasRemaining)) aliasRemaining
         ([(''app'', rootOf ''1.0.0'' (Some [(''my-lodash'', ''/lodash/4.17.21'')]))], []) =
       Inr (aliasRoots, [])"
    by (simp add: aliasLockfile_def aliasRemaining_def aliasRoots_def plainSnapshot_def
        rootOf_def getPathPackageDesc_def getPackage_def startsWith_def execPath_def
        segment_def isLineTerminator_def indexOf_def)
  have c: "getDependencyPackageDesc ''my-lodash'' ''/lodash/4.17.21'' =
       Inr (versionDesc ''lodash'' ''4.17.21'')"
    by (simp add: getDependencyPackageDesc_def getPathPackageDesc_def isDigit_def
        startsWith_def execPath_def segment_def isLineTerminator_def indexOf_def
        versionDesc_def)
  have d: "map_of aliasRoots ''my-lodash'' = None"
    by (simp add: aliasRoots_def)
  have e: "declareOrCheck aliasRoots [] ''app'' ''my-lodash'' (versionDesc ''lodash'' ''4.17.21'')
         (rootOf ''1.0.0'' (Some [(''my-lodash'', ''/lodash/4.17.21'')])) = Inl (TypeError ?msg)"
    using declareOrCheck_absent [OF _ d] by simp
  have f: "\<not> sublist ''/lodash/4.17.21'' ?msg"
  proof
    assume "sublist ''/lodash/4.17.21'' ?msg"
    then have "set ''/lodash/4.17.21'' \<subseteq> set ?msg"
      by (rule set_mono_sublist)
    then show False by simp
  qed
  have g: "\<not> sublist ''my-lodash'' ?msg"
  proof
    assume "sublist ''my-lodash'' ?msg"
    then have "set ''my-lodash'' \<subseteq> set ?msg"
      by (rule set_mono_sublist)
    then show False by simp
  qed
  have h: "requiredSubdependencies aliasRoots [] aliasRoots = Inl (TypeError ?msg)"
    by (simp add: aliasRoots_def rootOf_def getDependencyPackageDesc_def
        getPathPackageDesc_def isDigit_def startsWith_def execPath_def segment_def
        isLineTerminator_def indexOf_def declareOrCheck_def)
  from a b c d e f g h show ?thesis by simp
qed

text \<open>
  C9 fails on the code. In \<open>aliasLockfile\<close> the root \<^verbatim>\<open>app\<close> requires the package
  \<^verbatim>\<open>lodash\<close> under the name \<^verbatim>\<open>my-lodash\<close>; the second loop makes \<^verbatim>\<open>lodash\<close> a root,
  so the full key is not staged, and the root map has no entry \<^verbatim>\<open>my-lodash\<close>: reading
  the version of the absent record ends the conversion with a \<^verbatim>\<open>TypeError\<close>.
\<close>

theorem missing_root_type_error:
  "processLockfile DEPENDENCIES_FIELDS aliasLockfile =
     Inl (TypeError ''Cannot read properties of undefined (reading 'version')'')"
  by (simp add: processLockfile_def DEPENDENCIES_FIELDS_def aliasLockfile_def plainSnapshot_def
      getDependencyPackageDesc_def getPathPackageDesc_def getPackage_def isDigit_def
      startsWith_def execPath_def segment_def isLineTerminator_def indexOf_def substr_def
      substrFrom_def declareOrCheck_def removeExtraneous_def)

lemma nested_removeExtraneous: "nested (removeExtraneous name packageDesc val) = nested val"
  by (simp add: nested_def removeExtraneous_nested)

lemma declareOrCheck_nested_cases:
  assumes "declareOrCheck deps subdeps key name packageDesc val = Inr val'"
  shows "(map_of subdeps (fullName packageDesc) = None \<and> nested val' = nested val)
         \<or> (\<exists>dep. map_of subdeps (fullName packageDesc) = Some dep
               \<and> nested val' =
                   AList.update name (getSubDependencyFromDependency dep) (nested val))"
proof (cases "map_of subdeps (fullName packageDesc)")
  case None
  with declareOrCheck_nested [OF assms] show ?thesis by simp
next
  case (Some dep)
  with declareOrCheck_nested [OF assms] show ?thesis by (simp add: nested_def)
qed

lemma requiresOf_nested_sound:
  assumes "requiresOf deps subdeps key rs val = Inr val'"
    and "(n, s) \<in> set (nested val')"
  shows "(n, s) \<in> set (nested val)
         \<or> (\<exists>version d dep. (n, version) \<in> set rs
               \<and> getDependencyPackageDesc n version = Inr d
               \<and> map_of subdeps (fullName d) = Some dep
               \<and> s = getSubDependencyFromDependency dep)"
  using assms
proof (induction rs arbitrary: val)
  case Nil
  then show ?case by simp
next
  case (Cons r rs)
  obtain name version where r: "r = (name, version)" by (cases r)
  from Cons.prems(1) obtain d v1 where
    d: "getDependencyPackageDesc name version = Inr d"
    and s: "declareOrCheck deps subdeps key name d val = Inr v1"
    and rest: "requiresOf deps subdeps key rs (removeExtraneous name d v1) = Inr val'"
    by (auto simp: r split: sum.splits)
  from Cons.IH [OF rest Cons.prems(2)]
  consider (old) "(n, s) \<in> set (nested v1)"
    | (new) "\<exists>version d dep. (n, version) \<in> set rs
               \<and> getDependencyPackageDesc n version = Inr d
               \<and> map_of subdeps (fullName d) = Some dep
               \<and> s = getSubDependencyFromDependency dep"
    by (auto simp: nested_removeExtraneous)
  then show ?case
  proof cases
    case old
    from declareOrCheck_nested_cases [OF s] show ?thesis
    proof
      assume "map_of subdeps (fullName d) = None \<and> nested v1 = nested val"
      with old show ?thesis by simp
    next
      assume "\<exists>dep. map_of subdeps (fullName d) = Some dep
                \<and> nested v1 = AList.update name (getSubDependencyFromDependency dep) (nested val)"
      then obtain dep where dep: "map_of subdeps (fullName d) = Some dep"
        and nv: "nested v1 = AList.update name (getSubDependencyFromDependency dep) (nested val)"
        by blast
      from old nv set_update_subset [of name "getSubDependencyFromDependency dep" "nested val"]
      have "(n, s) = (name, getSubDependencyFromDependency dep) \<or> (n, s) \<in> set (nested val)"
        by auto
      then show ?thesis
      proof
        assume "(n, s) = (name, getSubDependencyFromDependency dep)"
        with d dep show ?thesis by (auto simp: r)
      next
        assume "(n, s) \<in> set (nested val)"
        then show ?thesis by simp
      qed
    qed
  next
    case new
    then show ?thesis by (auto simp: r)
  qed
qed



subsection \<open>The loop over the roots\<close>

lemma requiredSubdependencies_other:
  assumes "requiredSubdependencies es subdeps deps = Inr deps'"
    and "n \<notin> fst ` set es"
  shows "map_of deps' n = map_of deps n"
  using assms
proof (induction es arbitrary: deps)
  case Nil
  then show ?case by simp
next
  case (Cons e es)
  obtain key val where e: "e = (key, val)" by (cases e)
  from Cons.prems(2) have ne: "n \<noteq> key" and notin: "n \<notin> fst ` set es"
    by (auto simp: e)
  show ?case
  proof (cases "dep_requires val")
    case None
    with Cons.prems(1) have "requiredSubdependencies es subdeps deps = Inr deps'"
      by (simp add: e)
    from Cons.IH [OF this notin] show ?thesis .
  next
    case (Some rs)
    with Cons.prems(1) obtain val' where
      rest: "requiredSubdependencies es subdeps (AList.update key val' deps) = Inr deps'"
      by (auto simp: e split: sum.splits)
    from Cons.IH [OF rest notin] ne show ?thesis
      by (simp add: map_of_update_other)
  qed
qed

lemma requiredSubdependencies_keys:
  assumes "requiredSubdependencies es subdeps deps = Inr deps'"
    and "fst ` set es \<subseteq> fst ` set deps"
  shows "map fst deps' = map fst deps"
  using assms
proof (induction es arbitrary: deps)
  case Nil
  then show ?case by simp
next
  case (Cons e es)
  obtain key val where e: "e = (key, val)" by (cases e)
  from Cons.prems(2) have key: "key \<in> fst ` set deps" and sub: "fst ` set es \<subseteq> fst ` set deps"
    by (auto simp: e)
  show ?case
  proof (cases "dep_requires val")
    case None
    with Cons.prems(1) have "requiredSubdependencies es subdeps deps = Inr deps'"
      by (simp add: e)
    from Cons.IH [OF this sub] show ?thesis .
  next
    case (Some rs)
    with Cons.prems(1) obtain val' where
      rest: "requiredSubdependencies es subdeps (AList.update key val' deps) = Inr deps'"
      by (auto simp: e split: sum.splits)
    have k: "map fst (AList.update key val' deps) = map fst deps"
      using update_keys_present [OF key] .
    then have "fst ` set es \<subseteq> fst ` set (AList.update key val' deps)"
      using sub by (metis list.set_map)
    from Cons.IH [OF rest this] k show ?thesis by simp
  qed
qed

lemma requiredSubdependencies_entry:
  assumes "requiredSubdependencies es subdeps deps = Inr deps'"
    and "distinct (map fst es)"
    and "(key, val) \<in> set es"
  shows "(dep_requires val = None \<longrightarrow> map_of deps' key = map_of deps key)
         \<and> (\<forall>rs. dep_requires val = Some rs \<longrightarrow>
               (\<exists>deps0 val'. requiresOf deps0 subdeps key rs val = Inr val'
                    \<and> map_of deps' key = Some val'))"
  using assms
proof (induction es arbitrary: deps)
  case Nil
  then show ?case by simp
next
  case (Cons e es)
  obtain k v where e: "e = (k, v)" by (cases e)
  from Cons.prems(2) have dist: "distinct (map fst es)" and notin: "k \<notin> fst ` set es"
    by (auto simp: e)
  show ?case
  proof (cases "(key, val) = (k, v)")
    case True
    show ?thesis
    proof (cases "dep_requires val")
      case None
      with Cons.prems(1) True have "requiredSubdependencies es subdeps deps = Inr deps'"
        by (simp add: e)
      from requiredSubdependencies_other [OF this notin] None True show ?thesis by simp
    next
      case (Some rs)
      with Cons.prems(1) True obtain val' where
        ro: "requiresOf deps subdeps key rs val = Inr val'"
        and rest: "requiredSubdependencies es subdeps (AList.update key val' deps) = Inr deps'"
        by (auto simp: e split: sum.splits)
      from requiredSubdependencies_other [OF rest] notin True
      have "map_of deps' key = Some val'"
        by (simp add: map_of_update_same)
      with ro Some show ?thesis by auto
    qed
  next
    case False
    with Cons.prems(3) have mem: "(key, val) \<in> set es" by (auto simp: e)
    then have ne: "key \<noteq> k" using notin by force
    show ?thesis
    proof (cases "dep_requires v")
      case None
      with Cons.prems(1) have "requiredSubdependencies es subdeps deps = Inr deps'"
        by (simp add: e)
      from Cons.IH [OF this dist mem] show ?thesis .
    next
      case (Some rs)
      with Cons.prems(1) obtain v' where
        rest: "requiredSubdependencies es subdeps (AList.update k v' deps) = Inr deps'"
        by (auto simp: e split: sum.splits)
      from Cons.IH [OF rest dist mem] ne show ?thesis
        by (simp add: map_of_update_other)
    qed
  qed
qed

subsection \<open>Rewriting of the requires entries\<close>

lemma fst_rewritten: "fst (rewritten entry) = fst entry"
  by (simp add: rewritten_def split: sum.splits)

lemma map_fst_rewritten: "map fst (map rewritten rs) = map fst rs"
  by (simp add: fst_rewritten comp_def)

lemma map_of_rewritten:
  assumes "distinct (map fst rs)" and "(name, version) \<in> set rs"
  shows "map_of (map rewritten rs) name = Some (snd (rewritten (name, version)))"
proof -
  have "(name, snd (rewritten (name, version))) \<in> set (map rewritten rs)"
  proof -
    have "rewritten (name, version) \<in> set (map rewritten rs)"
      using assms(2) by (simp add: rev_image_eqI)
    moreover have "rewritten (name, version) = (name, snd (rewritten (name, version)))"
      using fst_rewritten [of "(name, version)"] by (cases "rewritten (name, version)") simp
    ultimately show ?thesis by simp
  qed
  moreover have "distinct (map fst (map rewritten rs))"
    using assms(1) by (simp only: map_fst_rewritten)
  ultimately show ?thesis by simp
qed

lemma take_takeWhile: "take (length (takeWhile P xs)) xs = takeWhile P xs"
  by (induction xs) auto

lemma getPathPackageDesc_kinds:
  assumes "getPathPackageDesc k = Inr d"
  shows "(desc_type d = Github \<and> extra d = None)
         \<or> (desc_type d \<noteq> Github \<and> CHR ''_'' \<notin> set (desc_version d))"
proof (cases "startsWith k ''github.com/''")
  case True
  with assms show ?thesis
    by (auto simp: getPathPackageDesc_def getGithubPackageDesc_def split: option.splits)
next
  case False
  with assms obtain name version where ex: "execPath k = Some (name, version)"
    by (auto simp: getPathPackageDesc_def split: option.splits)
  have nu: "CHR ''_'' \<notin> set (takeWhile (\<lambda>x. x \<noteq> CHR ''_'') version)"
    using set_takeWhileD by fastforce
  show ?thesis
  proof (cases "CHR ''_'' \<in> set version")
    case True
    with assms False ex
    have "desc_version d = takeWhile (\<lambda>x. x \<noteq> CHR ''_'') version \<and> desc_type d \<noteq> Github"
      by (auto simp: getPathPackageDesc_def indexOf_def substr_def take_takeWhile Let_def
          split: if_splits)
    with nu show ?thesis by simp
  next
    case nounderscore: False
    with assms False ex
    have "desc_version d = version \<and> desc_type d \<noteq> Github"
      by (auto simp: getPathPackageDesc_def indexOf_def Let_def split: if_splits)
    with nounderscore show ?thesis by simp
  qed
qed

lemma getDependencyPackageDesc_kinds:
  assumes "getDependencyPackageDesc name version = Inr d"
  shows "(desc_type d = Github \<and> extra d = None)
         \<or> (desc_type d \<noteq> Github \<and> CHR ''_'' \<notin> set (desc_version d))"
  using assms getPathPackageDesc_kinds
  by (auto simp: getDependencyPackageDesc_def split: if_splits)

text \<open>
  C6. After the third loop, for every entry \<open>(name, version)\<close> of the requires of a root,
  the requires of the root in the result maps the name to the version of the parsed
  descriptor, which holds no underscore, when the descriptor has an extra or is of kind
  Uri, and to the unchanged specifier otherwise; the names of the requires and their
  order are unchanged.
\<close>

theorem requires_entries_rewritten:
  assumes "requiredSubdependencies deps subdeps deps = Inr deps'"
    and "distinct (map fst deps)"
    and "(key, val) \<in> set deps"
    and "dep_requires val = Some rs"
    and "distinct (map fst rs)"
    and "(name, version) \<in> set rs"
  shows "\<exists>packageDesc val' rs'.
           getDependencyPackageDesc name version = Inr packageDesc
           \<and> map_of deps' key = Some val' \<and> dep_requires val' = Some rs'
           \<and> map fst rs' = map fst rs
           \<and> (extra packageDesc \<noteq> None \<or> desc_type packageDesc = Uri \<longrightarrow>
                map_of rs' name = Some (desc_version packageDesc)
                \<and> CHR ''_'' \<notin> set (desc_version packageDesc))
           \<and> (extra packageDesc = None \<and> desc_type packageDesc \<noteq> Uri \<longrightarrow>
                map_of rs' name = Some version)"
proof -
  from requiredSubdependencies_entry [OF assms(1-3)] assms(4)
  obtain deps0 val' where ro: "requiresOf deps0 subdeps key rs val = Inr val'"
    and out: "map_of deps' key = Some val'"
    by blast
  from requiresOf_parses [OF ro assms(6)] obtain d
    where d: "getDependencyPackageDesc name version = Inr d" by blast
  have rq: "dep_requires val' = Some (map rewritten rs)"
    using requiresOf_requires [OF ro assms(4,5)] .
  have look: "map_of (map rewritten rs) name = Some (snd (rewritten (name, version)))"
    using map_of_rewritten [OF assms(5,6)] .
  have rw: "snd (rewritten (name, version)) =
              (if extra d \<noteq> None \<or> desc_type d = Uri then desc_version d else version)"
    using d by (simp add: rewritten_def)
  have bare: "extra d \<noteq> None \<or> desc_type d = Uri \<Longrightarrow> CHR ''_'' \<notin> set (desc_version d)"
    using getDependencyPackageDesc_kinds [OF d] by auto
  from d out rq look rw bare map_fst_rewritten [of rs] show ?thesis
    by auto
qed

theorem requires_entries_rewritten_witness:
  "requiredSubdependencies sampleRoots [] sampleRoots = Inr sampleRootsRewritten
   \<and> map_of sampleRootsRewritten ''baz'' =
       Some (rootOf ''3.0.0'' (Some [(''qux'', ''4.0.0''), (''foo'', ''1.1.0'')]))
   \<and> (\<exists>packageDesc. getDependencyPackageDesc ''qux'' ''4.0.0_react@16'' = Inr packageDesc
         \<and> extra packageDesc \<noteq> None \<and> CHR ''_'' \<notin> set (desc_version packageDesc))"
proof -
  have run: "requiredSubdependencies sampleRoots [] sampleRoots = Inr sampleRootsRewritten"
    by (simp add: sampleRoots_def sampleRootsRewritten_def rootOf_def
        getDependencyPackageDesc_def getPathPackageDesc_def isDigit_def startsWith_def
        execPath_def segment_def isLineTerminator_def indexOf_def substr_def substrFrom_def
        declareOrCheck_def removeExtraneous_def)
  have dist: "distinct (map fst sampleRoots)"
    by (simp add: sampleRoots_def)
  have mem: "(''baz'', rootOf ''3.0.0'' (Some [(''qux'', ''4.0.0_react@16''), (''foo'', ''1.1.0'')]))
               \<in> set sampleRoots"
    by (simp add: sampleRoots_def)
  have rq: "dep_requires (rootOf ''3.0.0'' (Some [(''qux'', ''4.0.0_react@16''), (''foo'', ''1.1.0'')]))
              = Some [(''qux'', ''4.0.0_react@16''), (''foo'', ''1.1.0'')]"
    by (simp add: rootOf_def)
  have dr: "distinct (map fst [(''qux'', ''4.0.0_react@16''), (''foo'', ''1.1.0'')])"
    by simp
  have m: "(''qux'', ''4.0.0_react@16'') \<in> set [(''qux'', ''4.0.0_react@16''), (''foo'', ''1.1.0'')]"
    by simp
  have ev: "getDependencyPackageDesc ''qux'' ''4.0.0_react@16'' =
              Inr \<lparr>desc_type = Version, fullName = ''/qux/4.0.0_react@16'', desc_name = ''qux'',
                   desc_version = ''4.0.0'', extra = Some ''react@16''\<rparr>"
    by (simp add: getDependencyPackageDesc_def getPathPackageDesc_def isDigit_def startsWith_def
        execPath_def segment_def isLineTerminator_def indexOf_def substr_def substrFrom_def)
  from requires_entries_rewritten [OF run dist mem rq dr m] ev
  have "CHR ''_'' \<notin> set ''4.0.0''"
    by auto
  moreover have "map_of sampleRootsRewritten ''baz'' =
       Some (rootOf ''3.0.0'' (Some [(''qux'', ''4.0.0''), (''foo'', ''1.1.0'')]))"
    by (simp add: sampleRootsRewritten_def)
  ultimately show ?thesis using run ev by simp
qed

subsection \<open>The first loop\<close>

lemma getPackage_unnested:
  "getPackage lockfile packageDesc remove = Inr (dep, lockfile') \<Longrightarrow> unnested dep"
  using getPackage_fields [of lockfile packageDesc remove dep lockfile']
  by (auto simp: unnested_def)

lemma getPackage_keep:
  "getPackage lockfile packageDesc False = Inr (dep, lockfile') \<Longrightarrow> lockfile' = lockfile"
  using getPackage_lockfile [of lockfile packageDesc False dep lockfile'] by simp

lemma getPackage_remove:
  "getPackage lockfile packageDesc True = Inr (dep, lockfile') \<Longrightarrow>
   lockfile' = lockfile\<lparr>packages := AList.delete (fullName packageDesc) (packages lockfile)\<rparr>"
  using getPackage_lockfile [of lockfile packageDesc True dep lockfile'] by simp

lemma getPackage_same_snapshot:
  assumes "getPackage lockfile1 packageDesc remove = Inr (dep, lockfile1')"
    and "map_of (packages lockfile) (fullName packageDesc)
           = map_of (packages lockfile1) (fullName packageDesc)"
    and "specifiers lockfile = specifiers lockfile1"
  shows "getPackage lockfile packageDesc False = Inr (dep, lockfile)"
proof -
  from getPackage_fields [OF assms(1)] obtain snapshot
    where s: "map_of (packages lockfile1) (fullName packageDesc) = Some snapshot" by blast
  with assms(2) have s': "map_of (packages lockfile) (fullName packageDesc) = Some snapshot"
    by simp
  from getPackage_Some [OF s', of False]
  obtain dep' where g: "getPackage lockfile packageDesc False = Inr (dep', lockfile)"
    by auto
  have sp: "map_of (specifiers lockfile) n = map_of (specifiers lockfile1) n" for n
    by (simp only: assms(3))
  from getPackage_fields [OF g] s' getPackage_fields [OF assms(1)] s
  have "dep_version dep' = dep_version dep" "dep_resolved dep' = dep_resolved dep"
    "dep_from dep' = dep_from dep" "dep_integrity dep' = dep_integrity dep"
    "dep_dev dep' = dep_dev dep" "dep_requires dep' = dep_requires dep"
    "dep_dependencies dep' = dep_dependencies dep"
    by (auto simp: sp split: option.splits)
  then have "dep' = dep"
    by (cases dep, cases dep') simp
  with g show ?thesis by simp
qed

lemma delete_lookup:
  "map_of (AList.delete k al) k' = Some v \<Longrightarrow> map_of al k' = Some v"
  by (simp add: delete_conv' split: if_splits)

lemma directDependenciesOf_lockfile:
  assumes "directDependenciesOf es (deps, lockfile) = Inr (deps', lockfile')"
  shows "\<exists>ps. lockfile' = lockfile\<lparr>packages := ps\<rparr>
           \<and> (\<forall>k v. map_of ps k = Some v \<longrightarrow> map_of (packages lockfile) k = Some v)
           \<and> (distinct (map fst (packages lockfile)) \<longrightarrow> distinct (map fst ps))"
  using assms
proof (induction es arbitrary: deps lockfile)
  case Nil
  then have "lockfile' = lockfile\<lparr>packages := packages lockfile\<rparr>" by simp
  then show ?case by blast
next
  case (Cons e es)
  obtain name version where e: "e = (name, version)" by (cases e)
  from Cons.prems obtain d pkg lockfile1 where
    g: "getPackage lockfile d True = Inr (pkg, lockfile1)"
    and rest: "directDependenciesOf es (AList.update (desc_name d) pkg deps, lockfile1)
                 = Inr (deps', lockfile')"
    by (auto simp: e split: sum.splits)
  have l1: "lockfile1 = lockfile\<lparr>packages := AList.delete (fullName d) (packages lockfile)\<rparr>"
    using getPackage_remove [OF g] .
  from Cons.IH [OF rest] obtain ps where
    ps: "lockfile' = lockfile1\<lparr>packages := ps\<rparr>"
    and sub: "\<forall>k v. map_of ps k = Some v \<longrightarrow> map_of (packages lockfile1) k = Some v"
    and dist: "distinct (map fst (packages lockfile1)) \<longrightarrow> distinct (map fst ps)"
    by blast
  have "lockfile' = lockfile\<lparr>packages := ps\<rparr>"
    using ps l1 by simp
  moreover have "\<forall>k v. map_of ps k = Some v \<longrightarrow> map_of (packages lockfile) k = Some v"
    using sub l1 delete_lookup by fastforce
  moreover have "distinct (map fst (packages lockfile)) \<longrightarrow> distinct (map fst ps)"
    using dist l1 by (simp add: distinct_delete)
  ultimately show ?case by blast
qed

lemma directDependenciesOf_append:
  "directDependenciesOf (xs @ ys) st =
     (case directDependenciesOf xs st of
        Inl e \<Rightarrow> Inl e
      | Inr st' \<Rightarrow> directDependenciesOf ys st')"
proof (induction xs arbitrary: st)
  case Nil
  then show ?case by (cases st) simp
next
  case (Cons x xs)
  obtain deps lockfile where st: "st = (deps, lockfile)" by (cases st)
  obtain name version where x: "x = (name, version)" by (cases x)
  show ?case
  proof (cases "getDependencyPackageDesc name version")
    case (Inl e)
    then show ?thesis by (simp add: st x)
  next
    case (Inr d)
    show ?thesis
    proof (cases "getPackage lockfile d True")
      case (Inl e)
      with Inr show ?thesis by (simp add: st x)
    next
      case g: (Inr r)
      obtain pkg lockfile1 where r: "r = (pkg, lockfile1)" by (cases r)
      from Inr g r Cons.IH [of "(AList.update (desc_name d) pkg deps, lockfile1)"]
      show ?thesis by (simp add: st x)
    qed
  qed
qed

lemma fieldEntries_Cons:
  "fieldEntries lockfile (depType # rest) =
     (case field lockfile depType of None \<Rightarrow> [] | Some m \<Rightarrow> m) @ fieldEntries lockfile rest"
  by (simp add: fieldEntries_def)

lemma fieldEntries_packages:
  "fieldEntries (lockfile\<lparr>packages := ps\<rparr>) depFields = fieldEntries lockfile depFields"
proof -
  have "field (lockfile\<lparr>packages := ps\<rparr>) depType = field lockfile depType" for depType
    by (cases depType) simp_all
  then show ?thesis by (simp add: fieldEntries_def)
qed

lemma directDependencies_flat:
  "directDependencies depFields (deps, lockfile) =
     directDependenciesOf (fieldEntries lockfile depFields) (deps, lockfile)"
proof (induction depFields arbitrary: deps lockfile)
  case Nil
  then show ?case by (simp add: fieldEntries_def)
next
  case (Cons depType rest)
  show ?case
  proof (cases "field lockfile depType")
    case None
    then show ?thesis by (simp add: fieldEntries_Cons Cons.IH)
  next
    case (Some m)
    show ?thesis
    proof (cases "directDependenciesOf m (deps, lockfile)")
      case (Inl e)
      with Some show ?thesis
        by (simp add: fieldEntries_Cons directDependenciesOf_append)
    next
      case (Inr st)
      obtain deps1 lockfile1 where st: "st = (deps1, lockfile1)" by (cases st)
      from directDependenciesOf_lockfile [OF Inr [unfolded st]] obtain ps
        where "lockfile1 = lockfile\<lparr>packages := ps\<rparr>" by blast
      then have "fieldEntries lockfile1 rest = fieldEntries lockfile rest"
        by (simp add: fieldEntries_packages)
      with Some Inr st show ?thesis
        by (simp add: fieldEntries_Cons directDependenciesOf_append Cons.IH)
    qed
  qed
qed

lemma directDependenciesOf_distinct:
  assumes "directDependenciesOf es (deps, lockfile) = Inr (deps', lockfile')"
    and "distinct (map fst deps)"
  shows "distinct (map fst deps')"
  using assms
proof (induction es arbitrary: deps lockfile)
  case Nil
  then show ?case by simp
next
  case (Cons e es)
  obtain name version where e: "e = (name, version)" by (cases e)
  from Cons.prems(1) obtain d pkg lockfile1 where
    d: "getDependencyPackageDesc name version = Inr d"
    and rest: "directDependenciesOf es (AList.update (desc_name d) pkg deps, lockfile1)
                 = Inr (deps', lockfile')"
    by (auto simp: e split: sum.splits)
  from Cons.prems(2) have "distinct (map fst (AList.update (desc_name d) pkg deps))"
    by (rule distinct_update)
  from Cons.IH [OF rest this] show ?case .
qed

lemma directDependenciesOf_unnested:
  assumes "directDependenciesOf es (deps, lockfile) = Inr (deps', lockfile')"
    and "\<forall>(k, v) \<in> set deps. unnested v"
  shows "\<forall>(k, v) \<in> set deps'. unnested v"
  using assms
proof (induction es arbitrary: deps lockfile)
  case Nil
  then show ?case by simp
next
  case (Cons e es)
  obtain name version where e: "e = (name, version)" by (cases e)
  from Cons.prems(1) obtain d pkg lockfile1 where
    g: "getPackage lockfile d True = Inr (pkg, lockfile1)"
    and rest: "directDependenciesOf es (AList.update (desc_name d) pkg deps, lockfile1)
                 = Inr (deps', lockfile')"
    by (auto simp: e split: sum.splits)
  have "\<forall>(k, v) \<in> set (AList.update (desc_name d) pkg deps). unnested v"
    using set_update_subset [of "desc_name d" pkg deps] getPackage_unnested [OF g] Cons.prems(2)
    by auto
  from Cons.IH [OF rest this] show ?case .
qed

lemma directDependenciesOf_roots:
  assumes "directDependenciesOf es (deps, lockfile) = Inr (deps', lockfile')"
    and "n \<in> fst ` set deps"
  shows "n \<in> fst ` set deps'"
  using assms
proof (induction es arbitrary: deps lockfile)
  case Nil
  then show ?case by simp
next
  case (Cons e es)
  obtain name version where e: "e = (name, version)" by (cases e)
  from Cons.prems(1) obtain d pkg lockfile1 where
    d: "getDependencyPackageDesc name version = Inr d"
    and rest: "directDependenciesOf es (AList.update (desc_name d) pkg deps, lockfile1)
                 = Inr (deps', lockfile')"
    by (auto simp: e split: sum.splits)
  from Cons.prems(2) have "n \<in> fst ` set (AList.update (desc_name d) pkg deps)"
    by (simp add: dom_update)
  from Cons.IH [OF rest this] show ?case .
qed

lemma directDependenciesOf_consumed:
  assumes "directDependenciesOf es (deps, lockfile) = Inr (deps', lockfile')"
    and "k \<in> fst ` set (packages lockfile)"
    and "k \<notin> fst ` set (packages lockfile')"
  shows "\<exists>name version d. (name, version) \<in> set es
           \<and> getDependencyPackageDesc name version = Inr d
           \<and> fullName d = k \<and> desc_name d \<in> fst ` set deps'"
  using assms
proof (induction es arbitrary: deps lockfile)
  case Nil
  then show ?case by simp
next
  case (Cons e es)
  obtain name version where e: "e = (name, version)" by (cases e)
  from Cons.prems(1) obtain d pkg lockfile1 where
    d: "getDependencyPackageDesc name version = Inr d"
    and g: "getPackage lockfile d True = Inr (pkg, lockfile1)"
    and rest: "directDependenciesOf es (AList.update (desc_name d) pkg deps, lockfile1)
                 = Inr (deps', lockfile')"
    by (auto simp: e split: sum.splits)
  have l1: "packages lockfile1 = AList.delete (fullName d) (packages lockfile)"
    using getPackage_remove [OF g] by simp
  show ?case
  proof (cases "k = fullName d")
    case True
    have "desc_name d \<in> fst ` set (AList.update (desc_name d) pkg deps)"
      by (simp add: dom_update)
    from directDependenciesOf_roots [OF rest this] have "desc_name d \<in> fst ` set deps'" .
    with d True show ?thesis by (auto simp: e)
  next
    case False
    then have "map_of (packages lockfile1) k = map_of (packages lockfile) k"
      using l1 by simp
    with Cons.prems(2) have "k \<in> fst ` set (packages lockfile1)"
      by (metis map_of_dom)
    from Cons.IH [OF rest this Cons.prems(3)] show ?thesis
      by (auto simp: e)
  qed
qed

lemma directDependenciesOf_last:
  assumes "directDependenciesOf (es1 @ (name, version) # es2) (deps, lockfile)
             = Inr (deps', lockfile')"
    and "getDependencyPackageDesc name version = Inr d"
    and "\<forall>(n, v) \<in> set es2. \<forall>d'. getDependencyPackageDesc n v = Inr d'
           \<longrightarrow> desc_name d' \<noteq> desc_name d"
  shows "\<exists>dep. getPackage lockfile d False = Inr (dep, lockfile)
           \<and> map_of deps' (desc_name d) = Some dep"
proof -
  from assms(1) obtain deps1 lockfile1 where
    first: "directDependenciesOf es1 (deps, lockfile) = Inr (deps1, lockfile1)"
    and second: "directDependenciesOf ((name, version) # es2) (deps1, lockfile1)
                   = Inr (deps', lockfile')"
    by (auto simp: directDependenciesOf_append split: sum.splits)
  from second assms(2) obtain pkg lockfile2 where
    g: "getPackage lockfile1 d True = Inr (pkg, lockfile2)"
    and rest: "directDependenciesOf es2 (AList.update (desc_name d) pkg deps1, lockfile2)
                 = Inr (deps', lockfile')"
    by (auto split: sum.splits)
  from directDependenciesOf_lockfile [OF first] obtain ps where
    ps: "lockfile1 = lockfile\<lparr>packages := ps\<rparr>"
    and sub: "\<forall>k v. map_of ps k = Some v \<longrightarrow> map_of (packages lockfile) k = Some v"
    by blast
  from getPackage_fields [OF g] obtain snapshot
    where s: "map_of (packages lockfile1) (fullName d) = Some snapshot" by blast
  with ps sub have "map_of (packages lockfile) (fullName d) = Some snapshot"
    by simp
  with s have same: "map_of (packages lockfile) (fullName d) = map_of (packages lockfile1) (fullName d)"
    by simp
  have spec: "specifiers lockfile = specifiers lockfile1"
    by (simp add: ps)
  have res: "getPackage lockfile d False = Inr (pkg, lockfile)"
    using getPackage_same_snapshot [OF g same spec] .
  have keep: "map_of deps' (desc_name d) = map_of depsA (desc_name d)"
    if "directDependenciesOf es2 (depsA, lockfileA) = Inr (deps', lockfile')" for depsA lockfileA
    using that assms(3)
  proof (induction es2 arbitrary: depsA lockfileA)
    case Nil
    then show ?case by simp
  next
    case (Cons e es)
    obtain n v where e: "e = (n, v)" by (cases e)
    from Cons.prems(1) obtain d' pkg' lockfileB where
      d': "getDependencyPackageDesc n v = Inr d'"
      and r: "directDependenciesOf es (AList.update (desc_name d') pkg' depsA, lockfileB)
                = Inr (deps', lockfile')"
      by (auto simp: e split: sum.splits)
    from Cons.prems(2) d' have ne: "desc_name d' \<noteq> desc_name d"
      by (auto simp: e)
    from Cons.prems(2) have "\<forall>(n, v) \<in> set es. \<forall>d'. getDependencyPackageDesc n v = Inr d'
           \<longrightarrow> desc_name d' \<noteq> desc_name d"
      by simp
    from Cons.IH [OF r this] ne show ?case
      by (simp add: map_of_update_other)
  qed
  from keep [OF rest] have "map_of deps' (desc_name d) = Some pkg"
    by (simp add: map_of_update_same)
  with res show ?thesis by blast
qed

subsection \<open>The second loop\<close>

lemma getPathPackageDesc_fullName:
  "getPathPackageDesc key = Inr d \<Longrightarrow> fullName d = key"
  by (auto simp: getPathPackageDesc_def getGithubPackageDesc_def Let_def
      split: if_splits option.splits prod.splits)

lemma remainingPackages_step:
  assumes "remainingPackages (key # rest) lockfile (deps, subdeps) = Inr (deps', subdeps')"
  shows "\<exists>d pkg. getPathPackageDesc key = Inr d \<and> fullName d = key
           \<and> getPackage lockfile d False = Inr (pkg, lockfile)
           \<and> remainingPackages rest lockfile
                (if map_of deps (desc_name d) \<noteq> None
                 then (deps, AList.update key pkg subdeps)
                 else (AList.update (desc_name d) pkg deps, subdeps)) = Inr (deps', subdeps')"
proof -
  from assms obtain d where d: "getPathPackageDesc key = Inr d"
    by (auto split: sum.splits)
  with assms obtain pkg lockfile1 where g: "getPackage lockfile d False = Inr (pkg, lockfile1)"
    by (auto split: sum.splits)
  have l: "lockfile1 = lockfile"
    using getPackage_keep [OF g] .
  have f: "fullName d = key"
    using getPathPackageDesc_fullName [OF d] .
  from assms d g l f show ?thesis
    by (auto split: if_splits)
qed

lemma remainingPackages_roots_keep:
  assumes "remainingPackages keys lockfile (deps, subdeps) = Inr (deps', subdeps')"
    and "map_of deps n = Some v"
  shows "map_of deps' n = Some v"
  using assms
proof (induction keys arbitrary: deps subdeps)
  case Nil
  then show ?case by simp
next
  case (Cons key rest)
  from remainingPackages_step [OF Cons.prems(1)] obtain d pkg where
    d: "getPathPackageDesc key = Inr d"
    and run: "remainingPackages rest lockfile
            (if map_of deps (desc_name d) \<noteq> None
             then (deps, AList.update key pkg subdeps)
             else (AList.update (desc_name d) pkg deps, subdeps)) = Inr (deps', subdeps')"
    by blast
  show ?case
  proof (cases "map_of deps (desc_name d) \<noteq> None")
    case True
    with run Cons.IH [OF _ Cons.prems(2)] show ?thesis by simp
  next
    case False
    with Cons.prems(2) have "n \<noteq> desc_name d" by auto
    then have "map_of (AList.update (desc_name d) pkg deps) n = Some v"
      using Cons.prems(2) by (simp add: map_of_update_other)
    with run False Cons.IH show ?thesis by simp
  qed
qed

lemma remainingPackages_distinct:
  assumes "remainingPackages keys lockfile (deps, subdeps) = Inr (deps', subdeps')"
    and "distinct (map fst deps)"
  shows "distinct (map fst deps')"
  using assms
proof (induction keys arbitrary: deps subdeps)
  case Nil
  then show ?case by simp
next
  case (Cons key rest)
  from remainingPackages_step [OF Cons.prems(1)] obtain d pkg where
    d: "getPathPackageDesc key = Inr d"
    and run: "remainingPackages rest lockfile
            (if map_of deps (desc_name d) \<noteq> None
             then (deps, AList.update key pkg subdeps)
             else (AList.update (desc_name d) pkg deps, subdeps)) = Inr (deps', subdeps')"
    by blast
  have "distinct (map fst (AList.update (desc_name d) pkg deps))"
    using Cons.prems(2) by (rule distinct_update)
  with run Cons.prems(2) Cons.IH show ?case
    by (cases "map_of deps (desc_name d) \<noteq> None") simp_all
qed

lemma remainingPackages_unnested:
  assumes "remainingPackages keys lockfile (deps, subdeps) = Inr (deps', subdeps')"
    and "\<forall>(k, v) \<in> set deps. unnested v"
    and "\<forall>(k, v) \<in> set subdeps. unnested v"
  shows "(\<forall>(k, v) \<in> set deps'. unnested v) \<and> (\<forall>(k, v) \<in> set subdeps'. unnested v)"
  using assms
proof (induction keys arbitrary: deps subdeps)
  case Nil
  then show ?case by simp
next
  case (Cons key rest)
  from remainingPackages_step [OF Cons.prems(1)] obtain d pkg where
    g: "getPackage lockfile d False = Inr (pkg, lockfile)"
    and run: "remainingPackages rest lockfile
            (if map_of deps (desc_name d) \<noteq> None
             then (deps, AList.update key pkg subdeps)
             else (AList.update (desc_name d) pkg deps, subdeps)) = Inr (deps', subdeps')"
    by blast
  have u: "unnested pkg"
    using getPackage_unnested [OF g] .
  have a: "\<forall>(k, v) \<in> set (AList.update (desc_name d) pkg deps). unnested v"
    using set_update_subset [of "desc_name d" pkg deps] u Cons.prems(2) by auto
  have b: "\<forall>(k, v) \<in> set (AList.update key pkg subdeps). unnested v"
    using set_update_subset [of key pkg subdeps] u Cons.prems(3) by auto
  show ?case
  proof (cases "map_of deps (desc_name d) \<noteq> None")
    case True
    with run have "remainingPackages rest lockfile (deps, AList.update key pkg subdeps)
                     = Inr (deps', subdeps')" by simp
    from Cons.IH [OF this Cons.prems(2) b] show ?thesis .
  next
    case False
    with run have "remainingPackages rest lockfile (AList.update (desc_name d) pkg deps, subdeps)
                     = Inr (deps', subdeps')" by simp
    from Cons.IH [OF this a Cons.prems(3)] show ?thesis .
  qed
qed

lemma remainingPackages_staged_other:
  assumes "remainingPackages keys lockfile (deps, subdeps) = Inr (deps', subdeps')"
    and "k \<notin> set keys"
  shows "map_of subdeps' k = map_of subdeps k"
  using assms
proof (induction keys arbitrary: deps subdeps)
  case Nil
  then show ?case by simp
next
  case (Cons key rest)
  from remainingPackages_step [OF Cons.prems(1)] obtain d pkg where
    d: "getPathPackageDesc key = Inr d"
    and run: "remainingPackages rest lockfile
            (if map_of deps (desc_name d) \<noteq> None
             then (deps, AList.update key pkg subdeps)
             else (AList.update (desc_name d) pkg deps, subdeps)) = Inr (deps', subdeps')"
    by blast
  from Cons.prems(2) have ne: "k \<noteq> key" and notin: "k \<notin> set rest"
    by auto
  show ?case
  proof (cases "map_of deps (desc_name d) \<noteq> None")
    case True
    with run have "remainingPackages rest lockfile (deps, AList.update key pkg subdeps)
                     = Inr (deps', subdeps')" by simp
    from Cons.IH [OF this notin] ne show ?thesis
      by (simp add: map_of_update_other)
  next
    case False
    with run have "remainingPackages rest lockfile (AList.update (desc_name d) pkg deps, subdeps)
                     = Inr (deps', subdeps')" by simp
    from Cons.IH [OF this notin] show ?thesis .
  qed
qed

lemma remainingPackages_classify:
  assumes "remainingPackages keys lockfile (deps, subdeps) = Inr (deps', subdeps')"
    and "distinct keys"
    and "k \<in> set keys"
    and "map_of subdeps k = None"
  shows "\<exists>d pkg. getPathPackageDesc k = Inr d \<and> fullName d = k
           \<and> getPackage lockfile d False = Inr (pkg, lockfile)
           \<and> (map_of subdeps' k = Some pkg
                \<or> (map_of subdeps' k = None \<and> map_of deps' (desc_name d) = Some pkg))"
  using assms
proof (induction keys arbitrary: deps subdeps)
  case Nil
  then show ?case by simp
next
  case (Cons key rest)
  from remainingPackages_step [OF Cons.prems(1)] obtain d pkg where
    d: "getPathPackageDesc key = Inr d" and f: "fullName d = key"
    and g: "getPackage lockfile d False = Inr (pkg, lockfile)"
    and run: "remainingPackages rest lockfile
            (if map_of deps (desc_name d) \<noteq> None
             then (deps, AList.update key pkg subdeps)
             else (AList.update (desc_name d) pkg deps, subdeps)) = Inr (deps', subdeps')"
    by blast
  from Cons.prems(2) have notin: "key \<notin> set rest" and dist: "distinct rest"
    by auto
  show ?case
  proof (cases "map_of deps (desc_name d) \<noteq> None")
    case True
    with run have r: "remainingPackages rest lockfile (deps, AList.update key pkg subdeps)
                        = Inr (deps', subdeps')" by simp
    show ?thesis
    proof (cases "k = key")
      case k: True
      from remainingPackages_staged_other [OF r notin]
      have "map_of subdeps' key = Some pkg"
        by (simp add: map_of_update_same)
      with d f g k show ?thesis by blast
    next
      case k: False
      with Cons.prems(3) have mem: "k \<in> set rest" by simp
      from k Cons.prems(4) have "map_of (AList.update key pkg subdeps) k = None"
        by (simp add: map_of_update_other)
      from Cons.IH [OF r dist mem this] show ?thesis .
    qed
  next
    case False
    with run have r: "remainingPackages rest lockfile (AList.update (desc_name d) pkg deps, subdeps)
                        = Inr (deps', subdeps')" by simp
    show ?thesis
    proof (cases "k = key")
      case k: True
      from remainingPackages_staged_other [OF r notin] Cons.prems(4) k
      have "map_of subdeps' key = None" by simp
      moreover from remainingPackages_roots_keep [OF r, of "desc_name d" pkg]
      have "map_of deps' (desc_name d) = Some pkg"
        by (simp add: map_of_update_same)
      ultimately show ?thesis using d f g k by blast
    next
      case k: False
      with Cons.prems(3) have mem: "k \<in> set rest" by simp
      from Cons.IH [OF r dist mem Cons.prems(4)] show ?thesis .
    qed
  qed
qed


subsection \<open>Which keys each loop handles\<close>





subsection \<open>The whole conversion\<close>

lemma getSubDependencyFromDependency_fields:
  "sub_version (getSubDependencyFromDependency dep) = dep_version dep"
  "sub_resolved (getSubDependencyFromDependency dep) = dep_resolved dep"
  "sub_integrity (getSubDependencyFromDependency dep) = dep_integrity dep"
  by (simp_all add: getSubDependencyFromDependency_def Let_def split: option.splits)

lemma processLockfile_phases:
  assumes "processLockfile depFields lockfile = Inr out"
  shows "\<exists>deps1 lockfile1 deps2 subdeps.
           directDependenciesOf (fieldEntries lockfile depFields) ([], lockfile)
             = Inr (deps1, lockfile1)
           \<and> remainingPackages (map fst (packages lockfile1)) lockfile1 (deps1, [])
               = Inr (deps2, subdeps)
           \<and> requiredSubdependencies deps2 subdeps deps2 = Inr (out_dependencies out)"
proof -
  from assms obtain deps1 lockfile1 where
    p1: "directDependencies depFields ([], lockfile) = Inr (deps1, lockfile1)"
    by (auto simp: processLockfile_def split: sum.splits)
  with assms obtain deps2 subdeps where
    p2: "remainingPackages (map fst (packages lockfile1)) lockfile1 (deps1, [])
           = Inr (deps2, subdeps)"
    by (auto simp: processLockfile_def split: sum.splits)
  with assms p1 obtain deps3 where
    p3: "requiredSubdependencies deps2 subdeps deps2 = Inr deps3"
    and out: "out = \<lparr>out_requires = Some True, out_lockfileVersion = 1,
                      out_dependencies = deps3\<rparr>"
    by (auto simp: processLockfile_def split: sum.splits)
  from p1 have "directDependenciesOf (fieldEntries lockfile depFields) ([], lockfile)
                  = Inr (deps1, lockfile1)"
    by (simp add: directDependencies_flat)
  with p2 p3 out show ?thesis by auto
qed

lemma requiredSubdependencies_output:
  assumes "requiredSubdependencies deps subdeps deps = Inr deps'"
    and "distinct (map fst deps)"
    and "(key, val') \<in> set deps'"
  shows "\<exists>val. map_of deps key = Some val
           \<and> (val' = val
                \<or> (\<exists>deps0 rs. dep_requires val = Some rs
                      \<and> requiresOf deps0 subdeps key rs val = Inr val'))"
proof -
  have keys: "map fst deps' = map fst deps"
    using requiredSubdependencies_keys [OF assms(1)] by simp
  with assms(2) have dist': "distinct (map fst deps')" by simp
  with assms(3) have look: "map_of deps' key = Some val'" by simp
  from assms(3) have "key \<in> set (map fst deps')" by force
  with keys have "key \<in> set (map fst deps)" by simp
  then obtain val where mem: "(key, val) \<in> set deps" by auto
  with assms(2) have old: "map_of deps key = Some val" by simp
  show ?thesis
  proof (cases "dep_requires val")
    case None
    with requiredSubdependencies_entry [OF assms(1,2) mem] old look
    have "val' = val" by simp
    with old show ?thesis by blast
  next
    case (Some rs)
    with requiredSubdependencies_entry [OF assms(1,2) mem] look
    obtain deps0 where "requiresOf deps0 subdeps key rs val = Inr val'"
      by auto
    with old Some show ?thesis by blast
  qed
qed

lemma requiredSubdependencies_core:
  assumes "requiredSubdependencies deps subdeps deps = Inr deps'"
    and "distinct (map fst deps)"
    and "map_of deps key = Some val"
  shows "\<exists>val'. map_of deps' key = Some val' \<and> sameCore val val'
           \<and> (dep_requires val = None \<longrightarrow> val' = val)"
proof -
  from assms(3) have mem: "(key, val) \<in> set deps" by (rule map_of_mem)
  show ?thesis
  proof (cases "dep_requires val")
    case None
    with requiredSubdependencies_entry [OF assms(1,2) mem] assms(3)
    show ?thesis by (simp add: sameCore_refl)
  next
    case (Some rs)
    with requiredSubdependencies_entry [OF assms(1,2) mem]
    obtain deps0 val' where ro: "requiresOf deps0 subdeps key rs val = Inr val'"
      and look: "map_of deps' key = Some val'"
      by auto
    from requiresOf_core [OF ro] look Some show ?thesis by simp
  qed
qed

text \<open>
  C10. No record that the resolver returns has a \<open>resolved\<close> field, and in the output
  of a conversion neither a root nor a nested dependency of a root has one.
\<close>

theorem no_resolved_field:
  "(getPackage lockfile0 packageDesc remove = Inr (dep, lockfile0') \<longrightarrow> dep_resolved dep = None)
   \<and> (processLockfile depFields lockfile = Inr out \<longrightarrow>
        (\<forall>(key, val) \<in> set (out_dependencies out).
           dep_resolved val = None \<and> (\<forall>(n, s) \<in> set (nested val). sub_resolved s = None)))"
proof (intro conjI impI)
  assume "getPackage lockfile0 packageDesc remove = Inr (dep, lockfile0')"
  from getPackage_fields [OF this] show "dep_resolved dep = None" by blast
next
  assume conv: "processLockfile depFields lockfile = Inr out"
  from processLockfile_phases [OF conv] obtain deps1 lockfile1 deps2 subdeps where
    p1: "directDependenciesOf (fieldEntries lockfile depFields) ([], lockfile)
           = Inr (deps1, lockfile1)"
    and p2: "remainingPackages (map fst (packages lockfile1)) lockfile1 (deps1, [])
               = Inr (deps2, subdeps)"
    and p3: "requiredSubdependencies deps2 subdeps deps2 = Inr (out_dependencies out)"
    by blast
  have u1: "\<forall>(k, v) \<in> set deps1. unnested v"
    using directDependenciesOf_unnested [OF p1] by simp
  have d1: "distinct (map fst deps1)"
    using directDependenciesOf_distinct [OF p1] by simp
  have u2: "(\<forall>(k, v) \<in> set deps2. unnested v) \<and> (\<forall>(k, v) \<in> set subdeps. unnested v)"
    using remainingPackages_unnested [OF p2 u1] by simp
  have d2: "distinct (map fst deps2)"
    using remainingPackages_distinct [OF p2 d1] .
  show "\<forall>(key, val) \<in> set (out_dependencies out).
           dep_resolved val = None \<and> (\<forall>(n, s) \<in> set (nested val). sub_resolved s = None)"
  proof (intro ballI, clarify)
    fix key val'
    assume mem: "(key, val') \<in> set (out_dependencies out)"
    from requiredSubdependencies_output [OF p3 d2 mem] obtain val where
      old: "map_of deps2 key = Some val"
      and how: "val' = val \<or> (\<exists>deps0 rs. dep_requires val = Some rs
                      \<and> requiresOf deps0 subdeps key rs val = Inr val')"
      by blast
    from old u2 have uv: "unnested val"
      using map_of_mem [OF old] by auto
    from how show "dep_resolved val' = None \<and> (\<forall>(n, s) \<in> set (nested val'). sub_resolved s = None)"
    proof
      assume "val' = val"
      with uv show ?thesis by (simp add: unnested_def nested_def)
    next
      assume "\<exists>deps0 rs. dep_requires val = Some rs
                \<and> requiresOf deps0 subdeps key rs val = Inr val'"
      then obtain deps0 rs where ro: "requiresOf deps0 subdeps key rs val = Inr val'"
        by blast
      from requiresOf_core [OF ro] uv have r: "dep_resolved val' = None"
        by (simp add: sameCore_def unnested_def)
      have "sub_resolved s = None" if ns: "(n, s) \<in> set (nested val')" for n s
      proof -
        from uv have "nested val = []" by (simp add: unnested_def nested_def)
        with requiresOf_nested_sound [OF ro ns] obtain d :: PnpmPackageDesc and dep where
          st: "map_of subdeps (fullName d) = Some dep"
          and s: "s = getSubDependencyFromDependency dep"
          by auto
        from map_of_mem [OF st] u2 have "unnested dep" by auto
        with s show ?thesis
          by (simp add: getSubDependencyFromDependency_fields unnested_def)
      qed
      with r show ?thesis by auto
    qed
  qed
qed

lemmas conversion_defs =
  processLockfile_def DEPENDENCIES_FIELDS_def plainSnapshot_def rootOf_def
  getDependencyPackageDesc_def getPathPackageDesc_def getPackage_def isDigit_def
  startsWith_def execPath_def segment_def isLineTerminator_def indexOf_def substr_def
  substrFrom_def declareOrCheck_def removeExtraneous_def getSubDependencyFromDependency_def

lemma sharedLockfile_converts:
  "processLockfile DEPENDENCIES_FIELDS sharedLockfile = Inr sharedOutput"
  by (simp add: conversion_defs sharedLockfile_def sharedOutput_def nestedFoo_def)


theorem no_resolved_field_witness:
  "getPackage sharedLockfile (versionDesc ''foo'' ''1.1.0'') False =
     Inr ((rootOf ''1.1.0'' None)\<lparr>dep_integrity := Some ''sha-3''\<rparr>, sharedLockfile)
   \<and> dep_resolved ((rootOf ''1.1.0'' None)\<lparr>dep_integrity := Some ''sha-3''\<rparr>) = None
   \<and> processLockfile DEPENDENCIES_FIELDS sharedLockfile = Inr sharedOutput
   \<and> (''baz'', (rootOf ''3.0.0'' (Some [(''foo'', ''1.1.0'')]))
                  \<lparr>dep_dependencies := Some [(''foo'', nestedFoo)]\<rparr>)
        \<in> set (out_dependencies sharedOutput)
   \<and> dep_resolved ((rootOf ''3.0.0'' (Some [(''foo'', ''1.1.0'')]))
                      \<lparr>dep_dependencies := Some [(''foo'', nestedFoo)]\<rparr>) = None
   \<and> sub_resolved nestedFoo = None"
proof -
  let ?rec = "(rootOf ''1.1.0'' None)\<lparr>dep_integrity := Some ''sha-3''\<rparr>"
  let ?baz = "(rootOf ''3.0.0'' (Some [(''foo'', ''1.1.0'')]))
                \<lparr>dep_dependencies := Some [(''foo'', nestedFoo)]\<rparr>"
  have g: "getPackage sharedLockfile (versionDesc ''foo'' ''1.1.0'') False
             = Inr (?rec, sharedLockfile)"
    by (simp add: getPackage_def sharedLockfile_def versionDesc_def plainSnapshot_def rootOf_def)
  note run = sharedLockfile_converts
  note t = no_resolved_field [of sharedLockfile "versionDesc ''foo'' ''1.1.0''" False ?rec
      sharedLockfile DEPENDENCIES_FIELDS sharedLockfile sharedOutput]
  from t g have a: "dep_resolved ?rec = None" by blast
  from t run have b: "\<forall>(key, val) \<in> set (out_dependencies sharedOutput).
      dep_resolved val = None \<and> (\<forall>(n, s) \<in> set (nested val). sub_resolved s = None)"
    by blast
  have m: "(''baz'', ?baz) \<in> set (out_dependencies sharedOutput)"
    by (simp add: sharedOutput_def)
  have n: "(''foo'', nestedFoo) \<in> set (nested ?baz)"
    by (simp add: nested_def)
  from b m have c: "dep_resolved ?baz = None \<and> (\<forall>(n, s) \<in> set (nested ?baz). sub_resolved s = None)"
    by blast
  with n have "sub_resolved nestedFoo = None" by blast
  with g a run m c show ?thesis by blast
qed

subsection \<open>Precedence among the declared dependencies\<close>

text \<open>
  C4, as stated, fails. In \<open>aliasedBuckets\<close> the name \<^verbatim>\<open>foo\<close> is in the field of the
  runtime dependencies with version 1.0.0 and in the later field of the development
  dependencies with the specifier \<^verbatim>\<open>/bar/2.0.0\<close>; the root \<^verbatim>\<open>foo\<close> of the output is the
  record of the earlier field, not the record resolved from the later one. The outcome is
  the same when the fields are visited in the order optional, runtime, development.
\<close>

theorem last_kind_wins_counterexample:
  "field aliasedBuckets Dependencies = Some [(''foo'', ''1.0.0'')]
   \<and> field aliasedBuckets DevDependencies = Some [(''foo'', ''/bar/2.0.0'')]
   \<and> getDependencyPackageDesc ''foo'' ''/bar/2.0.0'' = Inr (versionDesc ''bar'' ''2.0.0'')
   \<and> getPackage aliasedBuckets (versionDesc ''bar'' ''2.0.0'') False =
       Inr ((rootOf ''2.0.0'' None)\<lparr>dep_integrity := Some ''sha-2''\<rparr>, aliasedBuckets)
   \<and> processLockfile DEPENDENCIES_FIELDS aliasedBuckets =
       Inr \<lparr>out_requires = Some True, out_lockfileVersion = 1,
            out_dependencies =
              [(''foo'', (rootOf ''1.0.0'' None)\<lparr>dep_integrity := Some ''sha-1''\<rparr>),
               (''bar'', (rootOf ''2.0.0'' None)\<lparr>dep_integrity := Some ''sha-2''\<rparr>)]\<rparr>
   \<and> processLockfile [OptionalDependencies, Dependencies, DevDependencies] aliasedBuckets =
       processLockfile DEPENDENCIES_FIELDS aliasedBuckets
   \<and> (rootOf ''1.0.0'' None)\<lparr>dep_integrity := Some ''sha-1''\<rparr>
       \<noteq> (rootOf ''2.0.0'' None)\<lparr>dep_integrity := Some ''sha-2''\<rparr>"
  by (simp add: conversion_defs aliasedBuckets_def versionDesc_def)

lemma requiredSubdependencies_keeps_root:
  assumes "requiredSubdependencies deps subdeps deps = Inr deps'"
    and "distinct (map fst deps)"
    and "map_of deps key = Some val"
  shows "\<exists>val'. map_of deps' key = Some val'
           \<and> dep_version val' = dep_version val \<and> dep_resolved val' = dep_resolved val
           \<and> dep_from val' = dep_from val \<and> dep_integrity val' = dep_integrity val
           \<and> dep_dev val' = dep_dev val
           \<and> (dep_requires val = None \<longrightarrow> val' = val)"
  using requiredSubdependencies_core [OF assms] by (auto simp: sameCore_def)

text \<open>
  C4, amended. Take the entries of the fields in the order in which the first loop visits
  them, and an entry after which no entry parses to a descriptor of the same name. If the
  conversion succeeds, the root of the output under the name of the descriptor of that
  entry has the version, resolved, from, integrity and dev of the record that the resolver
  builds for the entry on the source document, and is that record when it has no requires.
\<close>

theorem last_entry_wins:
  assumes "processLockfile depFields lockfile = Inr out"
    and "fieldEntries lockfile depFields = es1 @ (name, version) # es2"
    and "getDependencyPackageDesc name version = Inr packageDesc"
    and "\<forall>(n, v) \<in> set es2. \<forall>d'. getDependencyPackageDesc n v = Inr d'
           \<longrightarrow> desc_name d' \<noteq> desc_name packageDesc"
  shows "\<exists>dep val. getPackage lockfile packageDesc False = Inr (dep, lockfile)
           \<and> map_of (out_dependencies out) (desc_name packageDesc) = Some val
           \<and> dep_version val = dep_version dep \<and> dep_resolved val = dep_resolved dep
           \<and> dep_from val = dep_from dep \<and> dep_integrity val = dep_integrity dep
           \<and> dep_dev val = dep_dev dep
           \<and> (dep_requires dep = None \<longrightarrow> val = dep)"
proof -
  from processLockfile_phases [OF assms(1)] obtain deps1 lockfile1 deps2 subdeps where
    p1: "directDependenciesOf (fieldEntries lockfile depFields) ([], lockfile)
           = Inr (deps1, lockfile1)"
    and p2: "remainingPackages (map fst (packages lockfile1)) lockfile1 (deps1, [])
               = Inr (deps2, subdeps)"
    and p3: "requiredSubdependencies deps2 subdeps deps2 = Inr (out_dependencies out)"
    by blast
  from directDependenciesOf_last [OF p1 [unfolded assms(2)] assms(3,4)] obtain dep where
    g: "getPackage lockfile packageDesc False = Inr (dep, lockfile)"
    and r1: "map_of deps1 (desc_name packageDesc) = Some dep"
    by blast
  have r2: "map_of deps2 (desc_name packageDesc) = Some dep"
    using remainingPackages_roots_keep [OF p2 r1] .
  have d1: "distinct (map fst deps1)"
    using directDependenciesOf_distinct [OF p1] by simp
  have d2: "distinct (map fst deps2)"
    using remainingPackages_distinct [OF p2 d1] .
  from requiredSubdependencies_keeps_root [OF p3 d2 r2] g show ?thesis
    by auto
qed

theorem last_entry_wins_witness:
  "processLockfile DEPENDENCIES_FIELDS twoBuckets =
     Inr \<lparr>out_requires = Some True, out_lockfileVersion = 1,
          out_dependencies = [(''foo'', (rootOf ''2.0.0'' None)\<lparr>dep_integrity := Some ''sha-2''\<rparr>)]\<rparr>
   \<and> fieldEntries twoBuckets DEPENDENCIES_FIELDS = [(''foo'', ''1.0.0'')] @ (''foo'', ''2.0.0'') # []
   \<and> getDependencyPackageDesc ''foo'' ''2.0.0'' = Inr (versionDesc ''foo'' ''2.0.0'')
   \<and> (\<exists>dep. getPackage twoBuckets (versionDesc ''foo'' ''2.0.0'') False = Inr (dep, twoBuckets)
         \<and> dep_version dep = Some ''2.0.0'' \<and> dep_integrity dep = Some ''sha-2'')"
proof -
  let ?out = "\<lparr>out_requires = Some True, out_lockfileVersion = 1,
          out_dependencies = [(''foo'', (rootOf ''2.0.0'' None)\<lparr>dep_integrity := Some ''sha-2''\<rparr>)]\<rparr>"
  have run: "processLockfile DEPENDENCIES_FIELDS twoBuckets = Inr ?out"
    by (simp add: conversion_defs twoBuckets_def)
  have es: "fieldEntries twoBuckets DEPENDENCIES_FIELDS
              = [(''foo'', ''1.0.0'')] @ (''foo'', ''2.0.0'') # []"
    by (simp add: fieldEntries_def DEPENDENCIES_FIELDS_def twoBuckets_def)
  have d: "getDependencyPackageDesc ''foo'' ''2.0.0'' = Inr (versionDesc ''foo'' ''2.0.0'')"
    by (simp add: conversion_defs versionDesc_def)
  have later: "\<forall>(n, v) \<in> set []. \<forall>d'. getDependencyPackageDesc n v = Inr d'
           \<longrightarrow> desc_name d' \<noteq> desc_name (versionDesc ''foo'' ''2.0.0'')"
    by simp
  from last_entry_wins [OF run es d later] obtain dep val where
    g: "getPackage twoBuckets (versionDesc ''foo'' ''2.0.0'') False = Inr (dep, twoBuckets)"
    and v: "map_of (out_dependencies ?out) (desc_name (versionDesc ''foo'' ''2.0.0'')) = Some val"
    and same: "dep_version val = dep_version dep" "dep_integrity val = dep_integrity dep"
    by blast
  from v have "val = (rootOf ''2.0.0'' None)\<lparr>dep_integrity := Some ''sha-2''\<rparr>"
    by (simp add: versionDesc_def)
  with same have "dep_version dep = Some ''2.0.0'' \<and> dep_integrity dep = Some ''sha-2''"
    by (simp add: rootOf_def)
  with run es d g show ?thesis by blast
qed

subsection \<open>What becomes of the package keys\<close>










end
